theory Spec2Isabelle
  imports Main "HOL-Library.AList"
begin

section \<open>Characters\<close>

text \<open>
  Document text, tag names, paths and rendered tables are Python \<open>str\<close> values. They are
  modelled as \<^typ>\<open>string\<close>, one \<^typ>\<open>char\<close> standing for one code point below 256.
\<close>

definition code :: "char \<Rightarrow> nat" where
  "code c = of_char c"

text \<open>
  \<open>str.isspace\<close> on one character, which is also what \<open>\s\<close> matches in a \<open>str\<close> pattern
  and what \<open>str.strip()\<close> removes: the code points 9 to 13, 28 to 32, 133 and 160.
\<close>

definition is_space :: "char \<Rightarrow> bool" where
  "is_space c = ((9 \<le> code c \<and> code c \<le> 13) \<or> (28 \<le> code c \<and> code c \<le> 32)
     \<or> code c = 133 \<or> code c = 160)"

text \<open>
  The line boundaries of \<open>str.splitlines\<close>: line feed, vertical tab, form feed, carriage
  return, the separators 28 to 30 and the next-line character 133.
\<close>

definition is_linebreak :: "char \<Rightarrow> bool" where
  "is_linebreak c = ((10 \<le> code c \<and> code c \<le> 13) \<or> (28 \<le> code c \<and> code c \<le> 30)
     \<or> code c = 133)"

text \<open>
  The simple lower-case mapping that \<open>re.IGNORECASE\<close> compares with: A to Z and the
  accented capitals 192 to 222 (the multiplication sign 215 apart) move up by 32.
\<close>

definition to_lower :: "char \<Rightarrow> char" where
  "to_lower c = (if (65 \<le> code c \<and> code c \<le> 90) \<or> (192 \<le> code c \<and> code c \<le> 222 \<and> code c \<noteq> 215)
     then char_of (code c + 32) else c)"

section \<open>The tag pattern\<close>

text \<open>
  \<open>on_page_markdown\<close> compiles, for every reader name,
  \<^verbatim>\<open>re.compile("( *)\{\{\s+%s\((.+)\)\s+\}\}" % reader, flags=re.IGNORECASE)\<close>.
  The pattern is a sequence of literals and of greedy repetitions of a character class,
  which is all the regular-expression language the model needs.
\<close>

datatype charclass = OnlySpace | Whitespace | NotNewline

fun in_class :: "charclass \<Rightarrow> char \<Rightarrow> bool" where
  "in_class OnlySpace c = (c = CHR '' '')"
| "in_class Whitespace c = is_space c"
| "in_class NotNewline c = (c \<noteq> CHR 0x0A)"

datatype item = Lit char | Star charclass | Plus charclass

text \<open>
  The reader name is pasted into the pattern as it is; the names of the reader table are
  identifiers (letters, digits, underscore), which a pattern reads as literals.
\<close>

definition plain_char :: "char \<Rightarrow> bool" where
  "plain_char c = ((48 \<le> code c \<and> code c \<le> 57) \<or> (65 \<le> code c \<and> code c \<le> 90)
     \<or> (97 \<le> code c \<and> code c \<le> 122) \<or> code c = 95)"

definition plain_name :: "string \<Rightarrow> bool" where
  "plain_name reader = list_all plain_char reader"

definition closing :: "item list" where
  "closing = [Lit CHR '')'', Plus Whitespace, Lit CHR ''}'', Lit CHR ''}'']"

definition tag_pattern :: "string \<Rightarrow> item list" where
  "tag_pattern reader =
     [Star OnlySpace, Lit CHR ''{'', Lit CHR ''{'', Plus Whitespace] @ map Lit reader
       @ [Lit CHR ''('', Plus NotNewline] @ closing"

text \<open>
  Matching at the start of a string, with the backtracking order of \<open>re\<close>: a greedy
  repetition first tries to take one more character and gives it back only when the rest
  of the pattern fails after it. The result holds the text each item consumed. Literals
  compare case-insensitively (\<open>re.IGNORECASE\<close>).
\<close>

fun rmatch :: "item list \<Rightarrow> string \<Rightarrow> string list option" where
  "rmatch [] s = Some []"
| "rmatch (Lit c # ps) [] = None"
| "rmatch (Lit c # ps) (x # xs) =
     (if to_lower x = to_lower c then map_option ((#) [x]) (rmatch ps xs) else None)"
| "rmatch (Star k # ps) [] = map_option ((#) []) (rmatch ps [])"
| "rmatch (Star k # ps) (x # xs) =
     (if in_class k x then
        (case rmatch (Star k # ps) xs of
           Some (g # r) \<Rightarrow> Some ((x # g) # r)
         | _ \<Rightarrow> map_option ((#) []) (rmatch ps (x # xs)))
      else map_option ((#) []) (rmatch ps (x # xs)))"
| "rmatch (Plus k # ps) [] = None"
| "rmatch (Plus k # ps) (x # xs) =
     (if in_class k x then
        (case rmatch (Star k # ps) xs of
           Some (g # r) \<Rightarrow> Some ((x # g) # r)
         | _ \<Rightarrow> None)
      else None)"

text \<open>What a piece of a match looks like, item by item.\<close>

fun fits :: "item \<Rightarrow> string \<Rightarrow> bool" where
  "fits (Lit c) g = (case g of [x] \<Rightarrow> to_lower x = to_lower c | _ \<Rightarrow> False)"
| "fits (Star k) g = list_all (in_class k) g"
| "fits (Plus k) g = (g \<noteq> [] \<and> list_all (in_class k) g)"

text \<open>The two capture groups: the leading spaces and the raw argument text.\<close>

definition group1 :: "string list \<Rightarrow> string" where
  "group1 r = (case r of g # _ \<Rightarrow> g | [] \<Rightarrow> [])"

definition group2 :: "string \<Rightarrow> string list \<Rightarrow> string" where
  "group2 reader r = (case drop (length reader + 5) r of g # _ \<Rightarrow> g | [] \<Rightarrow> [])"

text \<open>
  The leftmost match: the first start offset at which the pattern matches, with the
  pieces matched there.
\<close>

fun search :: "item list \<Rightarrow> string \<Rightarrow> (nat \<times> string list) option" where
  "search p [] = map_option (Pair 0) (rmatch p [])"
| "search p (x # xs) =
     (case rmatch p (x # xs) of
        Some r \<Rightarrow> Some (0, r)
      | None \<Rightarrow> map_option (\<lambda>(i, r). (Suc i, r)) (search p xs))"

text \<open>
  \<open>re.findall\<close>: the matches from left to right, each search starting where the match
  before it ended. A tag pattern never matches the empty string, so the scan always
  advances; the last branch is there only to make the recursion total.
\<close>

function findall :: "item list \<Rightarrow> string \<Rightarrow> string list list" where
  "findall p s =
     (case search p s of
        None \<Rightarrow> []
      | Some (i, r) \<Rightarrow>
          (if length (drop (i + length (concat r)) s) < length s
           then r # findall p (drop (i + length (concat r)) s)
           else [r]))"
  by pat_completeness auto
termination
  by (relation "measure (\<lambda>(p, s). length s)") auto

declare findall.simps [simp del]

section \<open>Exceptions\<close>

text \<open>
  Every exception the hook can leave with. \<open>FileNotFoundError\<close> carries the two values
  its message interpolates: \<open>input_file_path\<close> and the tuple of \<open>search_directories\<close>.
  \<open>UnboundLocalError\<close> carries the name of the local variable read before assignment.
  \<open>ReError\<close> is \<open>re.error\<close>. \<open>Raised\<close> is an exception of a collaborator (the argument
  parser or a reader function), named by a string.
\<close>

datatype exn =
    FileNotFoundError string "string list"
  | UnboundLocalError string
  | TypeError
  | ReError
  | IndexError
  | Raised string

section \<open>Replacement templates\<close>

text \<open>
  \<open>tag_pattern.sub(markdown_table, markdown, count=1)\<close> passes the rendered table as the
  replacement, and \<open>re\<close> reads a replacement string as a template (CPython 3.12,
  \<open>re._parser.parse_template\<close>): a backslash starts an escape, a group reference or an
  error.
\<close>

datatype tpart = TLit string | TGroup nat

definition is_digit :: "char \<Rightarrow> bool" where
  "is_digit c = (48 \<le> code c \<and> code c \<le> 57)"

definition is_octdigit :: "char \<Rightarrow> bool" where
  "is_octdigit c = (48 \<le> code c \<and> code c \<le> 55)"

definition is_ascii_letter :: "char \<Rightarrow> bool" where
  "is_ascii_letter c = ((65 \<le> code c \<and> code c \<le> 90) \<or> (97 \<le> code c \<and> code c \<le> 122))"

definition digit :: "char \<Rightarrow> nat" where
  "digit c = code c - 48"

definition decimal :: "string \<Rightarrow> nat" where
  "decimal ds = foldl (\<lambda>n d. 10 * n + digit d) 0 ds"

text \<open>\<open>str.isidentifier\<close> on code points below 256.\<close>

definition xid_start :: "char \<Rightarrow> bool" where
  "xid_start c = (is_ascii_letter c \<or> code c = 95 \<or> code c = 170 \<or> code c = 181 \<or> code c = 186
     \<or> (192 \<le> code c \<and> code c \<noteq> 215 \<and> code c \<noteq> 247))"

definition xid_continue :: "char \<Rightarrow> bool" where
  "xid_continue c = (xid_start c \<or> is_digit c \<or> code c = 183)"

definition is_identifier :: "string \<Rightarrow> bool" where
  "is_identifier s = (case s of [] \<Rightarrow> False | c # cs \<Rightarrow> xid_start c \<and> list_all xid_continue cs)"

text \<open>The pattern has two groups; \<open>addgroup\<close> refuses a larger index.\<close>

definition addgroup :: "nat \<Rightarrow> string \<Rightarrow> exn + tpart \<times> string" where
  "addgroup n rest = (if n > 2 then Inl ReError else Inr (TGroup n, rest))"

text \<open>
  \<open>\g<name>\<close>, read after the \<open>g\<close>. The name runs to the first \<open>>\<close>; a backslash
  inside it is read together with the character after it, and leaves a name that is neither
  a number nor an identifier. A name of digits is a group index. Any other name is looked up
  among the named groups, of which the tag pattern has none: \<open>IndexError\<close>. The scanner
  reads one token ahead, so a lone backslash right after the \<open>>\<close> fails first.
\<close>

definition group_name :: "string \<Rightarrow> exn + tpart \<times> string" where
  "group_name s =
     (case s of
        [] \<Rightarrow> Inl ReError
      | c # cs \<Rightarrow>
          if c \<noteq> CHR ''<'' then Inl ReError
          else
            (let name = takeWhile (\<lambda>x. x \<noteq> CHR ''>'' \<and> x \<noteq> CHR 0x5C) cs in
             case dropWhile (\<lambda>x. x \<noteq> CHR ''>'' \<and> x \<noteq> CHR 0x5C) cs of
               [] \<Rightarrow> Inl ReError
             | t # rest \<Rightarrow>
                 if t = CHR 0x5C then Inl ReError
                 else if name = [] then Inl ReError
                 else if list_all is_digit name then addgroup (decimal name) rest
                 else if is_identifier name then
                   (if rest = [CHR 0x5C] then Inl ReError else Inl IndexError)
                 else Inl ReError))"

text \<open>
  One escape, read after its backslash: the part it stands for and the text left.
  The cases are those of \<open>parse_template\<close>, in its order: \<open>\g\<close>, \<open>\0\<close> (octal, up to
  two more digits), another digit (an octal escape of three digits, or a group of one or
  two digits), the escapes \<open>\a \b \f \n \r \t \v \\\<close>, an unknown escape of an ASCII
  letter (an error), and any other character (kept with its backslash).
\<close>

definition escape :: "string \<Rightarrow> exn + tpart \<times> string" where
  "escape s =
     (case s of
        [] \<Rightarrow> Inl ReError
      | c # cs \<Rightarrow>
          if c = CHR ''g'' then group_name cs
          else if c = CHR ''0'' then
            (case cs of
               d1 # cs1 \<Rightarrow>
                 if is_octdigit d1 then
                   (case cs1 of
                      d2 # cs2 \<Rightarrow>
                        if is_octdigit d2 then Inr (TLit [char_of (8 * digit d1 + digit d2)], cs2)
                        else Inr (TLit [char_of (digit d1)], cs1)
                    | [] \<Rightarrow> Inr (TLit [char_of (digit d1)], cs1))
                 else Inr (TLit [char_of (0::nat)], cs)
             | [] \<Rightarrow> Inr (TLit [char_of (0::nat)], cs))
          else if is_digit c then
            (case cs of
               d1 # cs1 \<Rightarrow>
                 if is_digit d1 then
                   (case cs1 of
                      d2 # cs2 \<Rightarrow>
                        if is_octdigit c \<and> is_octdigit d1 \<and> is_octdigit d2 then
                          (if 64 * digit c + 8 * digit d1 + digit d2 > 255 then Inl ReError
                           else Inr (TLit [char_of (64 * digit c + 8 * digit d1 + digit d2)], cs2))
                        else addgroup (10 * digit c + digit d1) cs1
                    | [] \<Rightarrow> addgroup (10 * digit c + digit d1) cs1)
                 else addgroup (digit c) cs
             | [] \<Rightarrow> addgroup (digit c) cs)
          else if c = CHR ''a'' then Inr (TLit [CHR 0x07], cs)
          else if c = CHR ''b'' then Inr (TLit [CHR 0x08], cs)
          else if c = CHR ''f'' then Inr (TLit [CHR 0x0C], cs)
          else if c = CHR ''n'' then Inr (TLit [CHR 0x0A], cs)
          else if c = CHR ''r'' then Inr (TLit [CHR 0x0D], cs)
          else if c = CHR ''t'' then Inr (TLit [CHR 0x09], cs)
          else if c = CHR ''v'' then Inr (TLit [CHR 0x0B], cs)
          else if c = CHR 0x5C then Inr (TLit [CHR 0x5C], cs)
          else if is_ascii_letter c then Inl ReError
          else Inr (TLit [CHR 0x5C, c], cs))"

lemma addgroup_rest: "addgroup n r = Inr (part, rest) \<Longrightarrow> rest = r"
  by (auto simp: addgroup_def split: if_splits)

lemma group_name_shorter: "group_name s = Inr (part, rest) \<Longrightarrow> length rest \<le> length s"
proof -
  assume a: "group_name s = Inr (part, rest)"
  have d: "length (dropWhile P xs) \<le> length xs" for P and xs :: string
    by (rule length_dropWhile_le)
  from a show ?thesis
    unfolding group_name_def Let_def
    apply (auto split: list.splits if_splits dest!: addgroup_rest)
    subgoal for cs t
      using d [of "\<lambda>x. x \<noteq> CHR ''>'' \<and> x \<noteq> CHR 0x5C" cs] by simp
    done
qed

lemma escape_shorter: "escape s = Inr (part, rest) \<Longrightarrow> length rest \<le> length s"
  unfolding escape_def
  by (auto split: list.splits if_splits dest!: addgroup_rest dest: group_name_shorter)

function parse_template :: "string \<Rightarrow> exn + tpart list" where
  "parse_template [] = Inr []"
| "parse_template (c # cs) =
     (if c \<noteq> CHR 0x5C then
        (case parse_template cs of Inl e \<Rightarrow> Inl e | Inr parts \<Rightarrow> Inr (TLit [c] # parts))
      else
        (case escape cs of
           Inl e \<Rightarrow> Inl e
         | Inr (part, rest) \<Rightarrow>
             (case parse_template rest of Inl e \<Rightarrow> Inl e | Inr parts \<Rightarrow> Inr (part # parts))))"
  by pat_completeness auto
termination
  by (relation "measure length") (auto dest: escape_shorter)

text \<open>Filling a template from a match: group 0 is the whole match.\<close>

fun expand_part :: "string \<Rightarrow> string list \<Rightarrow> tpart \<Rightarrow> string" where
  "expand_part reader r (TLit s) = s"
| "expand_part reader r (TGroup n) =
     (if n = 0 then concat r else if n = 1 then group1 r else group2 reader r)"

definition expand :: "string \<Rightarrow> string list \<Rightarrow> tpart list \<Rightarrow> string" where
  "expand reader r parts = concat (map (expand_part reader r) parts)"

text \<open>
  \<open>tag_pattern.sub(repl, markdown, count=1)\<close>: the template is compiled first, then the
  leftmost match, if there is one, is replaced by the filled template.
\<close>

definition sub :: "string \<Rightarrow> string \<Rightarrow> string \<Rightarrow> exn + string" where
  "sub reader repl s =
     (case parse_template repl of
        Inl e \<Rightarrow> Inl e
      | Inr parts \<Rightarrow>
          (case search (tag_pattern reader) s of
             None \<Rightarrow> Inr s
           | Some (i, r) \<Rightarrow>
               Inr (take i s @ expand reader r parts @ drop (i + length (concat r)) s)))"

section \<open>Indentation\<close>

text \<open>\<open>str.split('\n')\<close> and \<open>"\n".join\<close>.\<close>

fun split_nl :: "string \<Rightarrow> string list" where
  "split_nl [] = [[]]"
| "split_nl (c # cs) =
     (if c = CHR 0x0A then [] # split_nl cs
      else (case split_nl cs of l # ls \<Rightarrow> (c # l) # ls | [] \<Rightarrow> [[c]]))"

fun join_nl :: "string list \<Rightarrow> string" where
  "join_nl [] = []"
| "join_nl [l] = l"
| "join_nl (l # ls) = l @ CHR 0x0A # join_nl ls"

text \<open>
  \<open>str.splitlines(True)\<close>: the lines with their line ends kept; a carriage return followed
  by a line feed is one line end.
\<close>

fun splitlines_keep :: "string \<Rightarrow> string list" where
  "splitlines_keep [] = []"
| "splitlines_keep [c] = [[c]]"
| "splitlines_keep (c # d # ds) =
     (if c = CHR 0x0D \<and> d = CHR 0x0A then [c, d] # splitlines_keep ds
      else if is_linebreak c then [c] # splitlines_keep (d # ds)
      else (case splitlines_keep (d # ds) of l # ls \<Rightarrow> (c # l) # ls | [] \<Rightarrow> [[c]]))"

text \<open>
  \<open>textwrap.indent(text, prefix)\<close> with its default predicate: the prefix goes before
  every line that does not consist of whitespace only.
\<close>

definition indent :: "string \<Rightarrow> string \<Rightarrow> string" where
  "indent text prefix =
     concat (map (\<lambda>line. if list_all is_space line then line else prefix @ line)
       (splitlines_keep text))"

text \<open>
  \<open>int(len(leading_spaces) / 4) * "    "\<close>. The quotient is a float; it is exact for every
  length a string can have, so the integer part is the integer quotient.
\<close>

definition normalize_spaces :: "string \<Rightarrow> string" where
  "normalize_spaces leading_spaces = concat (replicate (length leading_spaces div 4) ''    '')"

text \<open>Lines 116 to 124 of the hook: the table, indented line by line.\<close>

definition indent_table :: "string \<Rightarrow> string \<Rightarrow> string" where
  "indent_table leading_spaces markdown_table =
     join_nl (map (\<lambda>line. indent line (normalize_spaces leading_spaces)) (split_nl markdown_table))"

section \<open>Paths and argument values\<close>

text \<open>\<open>os.path.join\<close> of two components (\<open>posixpath\<close>).\<close>

definition path_join :: "string \<Rightarrow> string \<Rightarrow> string" where
  "path_join a b =
     (if b \<noteq> [] \<and> hd b = CHR ''/'' then b
      else if a = [] \<or> last a = CHR ''/'' then a @ b
      else a @ ''/'' @ b)"

text \<open>
  Modelled from the spec: the values \<open>parse_argkwarg\<close> returns (module \<open>safe_eval\<close> is not
  part of the sources). The spec's data model: a value is a string, an integer, a float, a
  boolean or null. A float is held as mantissa and binary exponent.
\<close>

datatype pyvalue = VStr string | VInt int | VFloat int int | VBool bool | VNone

text \<open>Truth value, as \<open>if pd_kwargs.get(...)\<close> tests it.\<close>

fun truthy :: "pyvalue \<Rightarrow> bool" where
  "truthy (VStr s) = (s \<noteq> [])"
| "truthy (VInt n) = (n \<noteq> 0)"
| "truthy (VFloat m e) = (m \<noteq> 0)"
| "truthy (VBool b) = b"
| "truthy VNone = False"

section \<open>The hook\<close>

text \<open>
  What the hook does to the world is observable as a trace: each \<open>os.path.exists\<close> with the
  working directory it ran in, the path and the answer; each call of a reader function with
  the working directory, the arguments and what it returned or raised.
\<close>

datatype event =
    Exists string string bool
  | Call string "pyvalue list" "(string \<times> pyvalue) list" "exn + string"

record world =
  cwd :: string
  trace :: "event list"

text \<open>
  The local variables of \<open>on_page_markdown\<close> that live across loop iterations.
  \<open>input_file_path\<close> and \<open>output_file_path\<close> are unbound (\<open>None\<close>) until a loop body
  assigns them, and keep their value from one occurrence to the next. \<open>pd_args\<close> and
  \<open>pd_kwargs\<close> are assigned at line 86 before every use.
\<close>

record frame =
  markdown :: string
  pd_args :: "pyvalue list"
  pd_kwargs :: "(string \<times> pyvalue) list"
  input_file_path :: "string option"
  output_file_path :: "string option"

text \<open>
  The collaborators and the two values lines 63 to 71 compute. \<open>parse_argkwarg\<close> (module
  \<open>safe_eval\<close>) and \<open>os.path.exists\<close> (working directory, path) are parameters.
\<close>

record env =
  mkdocs_dir :: string
  search_directories :: "string list"
  parse_argkwarg :: "string \<Rightarrow> exn + pyvalue list \<times> (string \<times> pyvalue) list"
  path_exists :: "string \<Rightarrow> string \<Rightarrow> bool"

type_synonym reader_fn = "pyvalue list \<Rightarrow> (string \<times> pyvalue) list \<Rightarrow> string \<Rightarrow> exn + string"

text \<open>Lines 93 to 96: the first positional argument. \<open>os.path.join\<close> wants a \<open>str\<close>.\<close>

definition rewrite_positional :: "string \<Rightarrow> frame \<Rightarrow> exn + frame" where
  "rewrite_positional data_path f =
     (case pd_args f of
        [] \<Rightarrow> Inr f
      | v # vs \<Rightarrow>
          (case v of
             VStr p \<Rightarrow>
               Inr (f\<lparr>input_file_path := Some p,
                      output_file_path := Some (path_join data_path p),
                      pd_args := VStr (path_join data_path p) # vs\<rparr>)
           | _ \<Rightarrow> Inl TypeError))"

text \<open>Lines 98 to 101: the keyword argument \<open>filepath_or_buffer\<close>, when it is truthy.\<close>

definition rewrite_keyword :: "string \<Rightarrow> frame \<Rightarrow> exn + frame" where
  "rewrite_keyword data_path f =
     (case map_of (pd_kwargs f) ''filepath_or_buffer'' of
        None \<Rightarrow> Inr f
      | Some v \<Rightarrow>
          if \<not> truthy v then Inr f
          else
            (case v of
               VStr p \<Rightarrow>
                 Inr (f\<lparr>input_file_path := Some p,
                        output_file_path := Some (path_join data_path p),
                        pd_kwargs := AList.update ''filepath_or_buffer''
                          (VStr (path_join data_path p)) (pd_kwargs f)\<rparr>)
             | _ \<Rightarrow> Inl TypeError))"

text \<open>
  One pass of the loop body, lines 93 to 103: both rewrites, then the existence check,
  which reads \<open>output_file_path\<close> whether or not this pass assigned it.
\<close>

definition try_directory :: "env \<Rightarrow> string \<Rightarrow> frame \<Rightarrow> world \<Rightarrow> (exn + bool \<times> frame) \<times> world" where
  "try_directory E data_path f w =
     (case rewrite_positional data_path f of
        Inl e \<Rightarrow> (Inl e, w)
      | Inr f1 \<Rightarrow>
          (case rewrite_keyword data_path f1 of
             Inl e \<Rightarrow> (Inl e, w)
           | Inr f2 \<Rightarrow>
               (case output_file_path f2 of
                  None \<Rightarrow> (Inl (UnboundLocalError ''output_file_path''), w)
                | Some out \<Rightarrow>
                    (let found = path_exists E (cwd w) (path_join (mkdocs_dir E) out)
                     in (Inr (found, f2),
                         w\<lparr>trace := trace w @ [Exists (cwd w) (path_join (mkdocs_dir E) out) found]\<rparr>)))))"

text \<open>
  The \<open>for ... else\<close> of lines 91 to 110 over the directories still to try. When the list
  is used up the \<open>else\<close> branch formats the message, reading \<open>input_file_path\<close>.
\<close>

fun find_file :: "env \<Rightarrow> string list \<Rightarrow> frame \<Rightarrow> world \<Rightarrow> (exn + frame) \<times> world" where
  "find_file E [] f w =
     (case input_file_path f of
        None \<Rightarrow> (Inl (UnboundLocalError ''input_file_path''), w)
      | Some p \<Rightarrow> (Inl (FileNotFoundError p (search_directories E)), w))"
| "find_file E (data_path # ds) f w =
     (case try_directory E data_path f w of
        (Inl e, w') \<Rightarrow> (Inl e, w')
      | (Inr (found, f'), w') \<Rightarrow> if found then (Inr f', w') else find_file E ds f' w')"

text \<open>
  Modelled from the spec: \<open>cd\<close> (module \<open>utils\<close> is not part of the sources). The spec: the
  working directory is set to the base directory for the duration of the block and restored
  afterward regardless of success or failure.
\<close>

definition cd :: "string \<Rightarrow> (world \<Rightarrow> 'a \<times> world) \<Rightarrow> world \<Rightarrow> 'a \<times> world" where
  "cd newdir body w =
     (let prevdir = cwd w;
          (r, w') = body (w\<lparr>cwd := newdir\<rparr>)
      in (r, w'\<lparr>cwd := prevdir\<rparr>))"

text \<open>The block of lines 91 to 112: find the file, then call the reader function.\<close>

definition load_table :: "env \<Rightarrow> reader_fn \<Rightarrow> frame \<Rightarrow> world \<Rightarrow> (exn + string \<times> frame) \<times> world" where
  "load_table E function f w =
     (case find_file E (search_directories E) f w of
        (Inl e, w') \<Rightarrow> (Inl e, w')
      | (Inr f', w') \<Rightarrow>
          (let outcome = function (pd_args f') (pd_kwargs f') (cwd w');
               w'' = w'\<lparr>trace := trace w' @ [Call (cwd w') (pd_args f') (pd_kwargs f') outcome]\<rparr>
           in case outcome of
                Inl e \<Rightarrow> (Inl e, w'')
              | Inr markdown_table \<Rightarrow> (Inr (markdown_table, f'), w'')))"

text \<open>The body of the inner loop, lines 84 to 128, for one \<open>result\<close> of \<open>findall\<close>.\<close>

definition process_result ::
  "env \<Rightarrow> string \<Rightarrow> reader_fn \<Rightarrow> string \<times> string \<Rightarrow> frame \<Rightarrow> world \<Rightarrow> (exn + frame) \<times> world" where
  "process_result E reader function result f w =
     (case parse_argkwarg E (snd result) of
        Inl e \<Rightarrow> (Inl e, w)
      | Inr (args, kwargs) \<Rightarrow>
          (case cd (mkdocs_dir E) (load_table E function (f\<lparr>pd_args := args, pd_kwargs := kwargs\<rparr>)) w of
             (Inl e, w') \<Rightarrow> (Inl e, w')
           | (Inr (markdown_table, f'), w') \<Rightarrow>
               (case sub reader (indent_table (fst result) markdown_table) (markdown f') of
                  Inl e \<Rightarrow> (Inl e, w')
                | Inr md \<Rightarrow> (Inr (f'\<lparr>markdown := md\<rparr>), w'))))"

fun for_results ::
  "env \<Rightarrow> string \<Rightarrow> reader_fn \<Rightarrow> (string \<times> string) list \<Rightarrow> frame \<Rightarrow> world \<Rightarrow> (exn + frame) \<times> world" where
  "for_results E reader function [] f w = (Inr f, w)"
| "for_results E reader function (result # results) f w =
     (case process_result E reader function result f w of
        (Inl e, w') \<Rightarrow> (Inl e, w')
      | (Inr f', w') \<Rightarrow> for_results E reader function results f' w')"

text \<open>Lines 78 to 81: the occurrences of one reader's tag, as \<open>re.findall\<close> returns them.\<close>

definition matches :: "string \<Rightarrow> string \<Rightarrow> (string \<times> string) list" where
  "matches reader md = map (\<lambda>r. (group1 r, group2 reader r)) (findall (tag_pattern reader) md)"

text \<open>The outer loop, line 73, over the items of the reader table (module \<open>readers\<close>).\<close>

fun for_readers :: "env \<Rightarrow> (string \<times> reader_fn) list \<Rightarrow> frame \<Rightarrow> world \<Rightarrow> (exn + frame) \<times> world" where
  "for_readers E [] f w = (Inr f, w)"
| "for_readers E ((reader, function) # rs) f w =
     (case for_results E reader function (matches reader (markdown f)) f w of
        (Inl e, w') \<Rightarrow> (Inl e, w')
      | (Inr f', w') \<Rightarrow> for_readers E rs f' w')"

text \<open>Lines 63 to 71: the base directory and the directories to search.\<close>

datatype base_choice = Config_dir | Docs_dir

record plugin_config =
  base_path :: base_choice
  data_path :: string
  search_page_directory :: bool

text \<open>
  The three directories the hook reads from its arguments: the directory of the
  configuration file, the documentation directory (both made absolute) and the directory of
  the page's source file.
\<close>

record site =
  config_dir :: string
  docs_dir :: string
  page_dir :: string

definition the_mkdocs_dir :: "plugin_config \<Rightarrow> site \<Rightarrow> string" where
  "the_mkdocs_dir cfg st = (case base_path cfg of Config_dir \<Rightarrow> config_dir st | Docs_dir \<Rightarrow> docs_dir st)"

definition the_search_directories :: "plugin_config \<Rightarrow> site \<Rightarrow> string list" where
  "the_search_directories cfg st =
     [data_path cfg] @ (if search_page_directory cfg then [page_dir st] else [])"

definition initial_frame :: "string \<Rightarrow> frame" where
  "initial_frame md =
     \<lparr>markdown = md, pd_args = [], pd_kwargs = [], input_file_path = None, output_file_path = None\<rparr>"

definition hook_env ::
  "plugin_config \<Rightarrow> site \<Rightarrow> (string \<Rightarrow> exn + pyvalue list \<times> (string \<times> pyvalue) list)
     \<Rightarrow> (string \<Rightarrow> string \<Rightarrow> bool) \<Rightarrow> env" where
  "hook_env cfg st parse ex =
     \<lparr>mkdocs_dir = the_mkdocs_dir cfg st,
      search_directories = the_search_directories cfg st,
      parse_argkwarg = parse, path_exists = ex\<rparr>"

definition on_page_markdown ::
  "plugin_config \<Rightarrow> site \<Rightarrow> (string \<Rightarrow> exn + pyvalue list \<times> (string \<times> pyvalue) list)
     \<Rightarrow> (string \<Rightarrow> string \<Rightarrow> bool) \<Rightarrow> (string \<times> reader_fn) list \<Rightarrow> string \<Rightarrow> world
     \<Rightarrow> (exn + string) \<times> world" where
  "on_page_markdown cfg st parse ex READERS md w =
     (case for_readers (hook_env cfg st parse ex) READERS (initial_frame md) w of
        (Inl e, w') \<Rightarrow> (Inl e, w')
      | (Inr f, w') \<Rightarrow> (Inr (markdown f), w'))"

section \<open>Reading a trace\<close>

text \<open>The exception a reader function raised, when the event is such a call.\<close>

fun failed_with :: "event \<Rightarrow> exn option" where
  "failed_with (Exists dir path found) = None"
| "failed_with (Call dir args kwargs outcome) = (case outcome of Inl e \<Rightarrow> Some e | Inr _ \<Rightarrow> None)"

text \<open>The working directory an event happened in.\<close>

fun in_dir :: "string \<Rightarrow> event \<Rightarrow> bool" where
  "in_dir d (Exists dir path found) = (dir = d)"
| "in_dir d (Call dir args kwargs outcome) = (dir = d)"

text \<open>The exception a run ended with, if it did.\<close>

definition err_of :: "exn + 'a \<Rightarrow> exn option" where
  "err_of res = (case res of Inl e \<Rightarrow> Some e | Inr _ \<Rightarrow> None)"

text \<open>
  A run's events fit the exception it ended with: no call of a reader function raised,
  but possibly the last event, and then the run ended with that exception.
\<close>

fun calls_ok :: "event list \<Rightarrow> exn option \<Rightarrow> bool" where
  "calls_ok [] r = True"
| "calls_ok [ev] r = (case failed_with ev of None \<Rightarrow> True | Some e \<Rightarrow> r = Some e)"
| "calls_ok (ev # evs) r = (failed_with ev = None \<and> calls_ok evs r)"

text \<open>
  What a stretch of a run may do to the world: the working directory is afterwards what it
  was before, the events it added all happened in the directory \<open>d\<close>, and they fit the
  exception \<open>r\<close> the stretch ended with.
\<close>

definition run_ok :: "string \<Rightarrow> world \<Rightarrow> exn option \<Rightarrow> world \<Rightarrow> bool" where
  "run_ok d w r w' = (cwd w' = cwd w \<and>
     (\<exists>new. trace w' = trace w @ new \<and> list_all (in_dir d) new \<and> calls_ok new r))"

text \<open>A reader function that raises whatever it is given.\<close>

definition failing_reader :: "exn \<Rightarrow> reader_fn" where
  "failing_reader e args kwargs dir = Inl e"

section \<open>A concrete site\<close>

text \<open>
  A site as the hook meets it: the configuration file in \<open>/site\<close>, the pages under
  \<open>/site/docs\<close>, the page being built in \<open>/site/docs/page_dir\<close>, the data directory
  configured as \<open>data\<close>, the page's own directory searched second.
\<close>

definition example_site :: site where
  "example_site = \<lparr>config_dir = ''/site'', docs_dir = ''/site/docs'', page_dir = ''/site/docs/page_dir''\<rparr>"

definition example_config :: plugin_config where
  "example_config = \<lparr>base_path = Config_dir, data_path = ''data'', search_page_directory = True\<rparr>"

definition start_world :: world where
  "start_world = \<lparr>cwd = ''/home/user'', trace = []\<rparr>"

text \<open>A file system that holds the listed files and nothing else.\<close>

definition files_are :: "string list \<Rightarrow> string \<Rightarrow> string \<Rightarrow> bool" where
  "files_are fs dir path = (path \<in> set fs)"

text \<open>
  A stand-in for the argument parser where a whole run is evaluated: it reads raw text with
  no \<open>=\<close> in it as one positional string, as the spec's parser does for \<open>data.csv\<close>, and
  \<open>name=digits\<close> as one keyword with an integer value.
\<close>

definition simple_parse :: "string \<Rightarrow> exn + pyvalue list \<times> (string \<times> pyvalue) list" where
  "simple_parse raw =
     (if CHR ''='' \<in> set raw
      then Inr ([], [(takeWhile (\<lambda>c. c \<noteq> CHR ''='') raw,
                      VInt (int (decimal (tl (dropWhile (\<lambda>c. c \<noteq> CHR ''='') raw)))))])
      else Inr ([VStr raw], []))"

text \<open>A reader function that returns the same table whatever it is given.\<close>

definition constant_reader :: "string \<Rightarrow> reader_fn" where
  "constant_reader table args kwargs dir = Inr table"


section \<open>Path resolution\<close>

text \<open>
  C1. The claim: when the file exists under the i-th search directory and under no earlier
  one, resolution returns the path under the i-th directory and does not raise.
  The loop writes the joined path back into \<open>pd_args[0]\<close> and reads it again on the next
  pass, so the second pass joins the second directory with the path already joined with the
  first. On the example site, with \<open>data.csv\<close> present in the page's directory only, the
  hook checks \<open>/site/data/data.csv\<close>, then \<open>/site/docs/page_dir/data/data.csv\<close>, and raises
  \<open>FileNotFoundError\<close>; no reader function is called. The same happens with the spec's own
  directories \<open>./data\<close> and \<open>./page_dir\<close>.
\<close>

theorem C1_second_directory_not_reached:
  "files_are [''/site/docs/page_dir/data.csv''] ''/site''
     (path_join ''/site'' (path_join ''/site/docs/page_dir'' ''data.csv''))
   \<and> \<not> files_are [''/site/docs/page_dir/data.csv''] ''/site''
     (path_join ''/site'' (path_join ''data'' ''data.csv''))
   \<and> on_page_markdown example_config example_site simple_parse
       (files_are [''/site/docs/page_dir/data.csv''])
       [(''read_csv'', constant_reader ''T'')] ''{{ read_csv(data.csv) }}'' start_world
     = (Inl (FileNotFoundError ''data/data.csv'' [''data'', ''/site/docs/page_dir'']),
        \<lparr>cwd = ''/home/user'',
         trace = [Exists ''/site'' ''/site/data/data.csv'' False,
                  Exists ''/site'' ''/site/docs/page_dir/data/data.csv'' False]\<rparr>)
   \<and> find_file
       \<lparr>mkdocs_dir = ''/site'', search_directories = [''./data'', ''./page_dir''],
        parse_argkwarg = simple_parse, path_exists = files_are [''/site/./page_dir/data.csv'']\<rparr>
       [''./data'', ''./page_dir'']
       ((initial_frame ''{{ read_csv(data.csv) }}'')\<lparr>pd_args := [VStr ''data.csv'']\<rparr>)
       \<lparr>cwd = ''/site'', trace = []\<rparr>
     = (Inl (FileNotFoundError ''./data/data.csv'' [''./data'', ''./page_dir'']),
        \<lparr>cwd = ''/site'',
         trace = [Exists ''/site'' ''/site/./data/data.csv'' False,
                  Exists ''/site'' ''/site/./page_dir/./data/data.csv'' False]\<rparr>)"
  by code_simp

text \<open>
  C2. The claim: when the file exists under none of the directories, resolution fails with
  \<open>FileNotFoundError\<close>, whose message names the original relative path and lists every
  directory in order.
  With two directories the message interpolates \<open>input_file_path\<close> as the last pass read
  it, which is the path joined with the first directory: \<open>data/missing.csv\<close>, not
  \<open>missing.csv\<close>. The directories are listed in order. And a file under none of the
  directories, but at the doubly joined path, is found: the reader function is called with
  \<open>/site/docs/page_dir/data/missing.csv\<close> and the hook returns a document.
\<close>

theorem C2_message_names_joined_path:
  "on_page_markdown example_config example_site simple_parse (files_are [])
       [(''read_csv'', constant_reader ''T'')] ''    {{ read_csv(missing.csv) }}'' start_world
     = (Inl (FileNotFoundError ''data/missing.csv'' [''data'', ''/site/docs/page_dir'']),
        \<lparr>cwd = ''/home/user'',
         trace = [Exists ''/site'' ''/site/data/missing.csv'' False,
                  Exists ''/site'' ''/site/docs/page_dir/data/missing.csv'' False]\<rparr>)
   \<and> \<not> files_are [''/site/docs/page_dir/data/missing.csv''] ''/site''
       (path_join ''/site'' (path_join ''data'' ''missing.csv''))
   \<and> \<not> files_are [''/site/docs/page_dir/data/missing.csv''] ''/site''
       (path_join ''/site'' (path_join ''/site/docs/page_dir'' ''missing.csv''))
   \<and> on_page_markdown example_config example_site simple_parse
       (files_are [''/site/docs/page_dir/data/missing.csv''])
       [(''read_csv'', constant_reader ''T'')] ''    {{ read_csv(missing.csv) }}'' start_world
     = (Inr ''    T'',
        \<lparr>cwd = ''/home/user'',
         trace = [Exists ''/site'' ''/site/data/missing.csv'' False,
                  Exists ''/site'' ''/site/docs/page_dir/data/missing.csv'' True,
                  Call ''/site'' [VStr ''/site/docs/page_dir/data/missing.csv''] [] (Inr ''T'')]\<rparr>)"
  by code_simp

section \<open>Indentation of the table\<close>

lemma split_nl_nonempty: "split_nl s \<noteq> []"
  by (induction s) (auto split: list.splits)

lemma split_nl_chars: "l \<in> set (split_nl s) \<Longrightarrow> c \<in> set l \<Longrightarrow> c \<in> set s \<and> c \<noteq> CHR 0x0A"
proof (induction s arbitrary: l)
  case Nil
  then show ?case by simp
next
  case (Cons x xs)
  show ?case
  proof (cases "x = CHR 0x0A")
    case True
    with Cons show ?thesis by auto
  next
    case False
    obtain l0 ls where sp: "split_nl xs = l0 # ls"
      using split_nl_nonempty [of xs] by (cases "split_nl xs") auto
    with False Cons.prems have "l = x # l0 \<or> l \<in> set ls" by auto
    then show ?thesis
    proof
      assume "l = x # l0"
      with Cons.prems(2) have "c = x \<or> c \<in> set l0" by auto
      then show ?thesis using False Cons.IH [of l0] sp by auto
    next
      assume "l \<in> set ls"
      then show ?thesis using Cons.IH [of l] Cons.prems(2) sp by auto
    qed
  qed
qed

lemma splitlines_keep_single:
  "list_all (\<lambda>c. \<not> is_linebreak c) l \<Longrightarrow> splitlines_keep l = (if l = [] then [] else [l])"
proof (induction l rule: splitlines_keep.induct)
  case 1
  then show ?case by simp
next
  case (2 c)
  then show ?case by simp
next
  case (3 c d ds)
  have lf: "is_linebreak (CHR 0x0A)" by (simp add: is_linebreak_def code_def)
  from 3 show ?case by (auto simp: lf)
qed

lemma indent_single:
  "list_all (\<lambda>c. \<not> is_linebreak c) l \<Longrightarrow>
     indent l prefix = (if list_all is_space l then l else prefix @ l)"
  by (simp add: indent_def splitlines_keep_single)

lemma normalize_spaces_eq: "normalize_spaces ws = replicate (4 * (length ws div 4)) CHR '' ''"
proof -
  have "concat (replicate n ''    '') = replicate (4 * n) CHR '' ''" for n
    by (induction n) (simp_all add: replicate_add eval_nat_numeral)
  then show ?thesis by (simp add: normalize_spaces_def)
qed

text \<open>
  C4, as amended. The prefix is \<open>4 * (n div 4)\<close> spaces for \<open>n\<close> captured characters. For a
  fragment whose only line-boundary characters are line feeds, every line that holds a
  character other than whitespace, the first line included, gets the prefix; an empty line
  and a line of whitespace only are left as they are (\<open>textwrap.indent\<close> skips them).
\<close>

theorem C4_indentation:
  assumes "list_all (\<lambda>c. is_linebreak c \<longrightarrow> c = CHR 0x0A) fragment"
  shows "normalize_spaces ws = replicate (4 * (length ws div 4)) CHR '' ''
    \<and> indent_table ws fragment =
        join_nl (map (\<lambda>line. if list_all is_space line then line
                              else replicate (4 * (length ws div 4)) CHR '' '' @ line)
                  (split_nl fragment))"
proof -
  have "indent line (normalize_spaces ws) =
      (if list_all is_space line then line else normalize_spaces ws @ line)"
    if "line \<in> set (split_nl fragment)" for line
  proof -
    have "list_all (\<lambda>c. \<not> is_linebreak c) line"
      unfolding list_all_iff
    proof
      fix c assume "c \<in> set line"
      with that have "c \<in> set fragment" "c \<noteq> CHR 0x0A"
        using split_nl_chars by blast+
      with assms show "\<not> is_linebreak c" by (auto simp: list_all_iff)
    qed
    then show ?thesis by (rule indent_single)
  qed
  then have "map (\<lambda>line. indent line (normalize_spaces ws)) (split_nl fragment) =
      map (\<lambda>line. if list_all is_space line then line else normalize_spaces ws @ line)
        (split_nl fragment)"
    by simp
  then have "indent_table ws fragment =
      join_nl (map (\<lambda>line. if list_all is_space line then line else normalize_spaces ws @ line)
        (split_nl fragment))"
    by (simp only: indent_table_def)
  then show ?thesis
    unfolding normalize_spaces_eq by simp
qed

theorem C4_indentation_witness:
  "indent_table ''      '' [CHR ''a'', CHR 0x0A, CHR 0x0A, CHR '' '', CHR 0x0A, CHR ''b'']
     = [CHR '' '', CHR '' '', CHR '' '', CHR '' '', CHR ''a'', CHR 0x0A, CHR 0x0A, CHR '' '', CHR 0x0A,
        CHR '' '', CHR '' '', CHR '' '', CHR '' '', CHR ''b'']"
proof -
  have h: "list_all (\<lambda>c. is_linebreak c \<longrightarrow> c = CHR 0x0A)
     [CHR ''a'', CHR 0x0A, CHR 0x0A, CHR '' '', CHR 0x0A, CHR ''b'']"
    by code_simp
  have r: "join_nl (map (\<lambda>line. if list_all is_space line then line
                              else replicate (4 * (length ''      '' div 4)) CHR '' '' @ line)
                  (split_nl [CHR ''a'', CHR 0x0A, CHR 0x0A, CHR '' '', CHR 0x0A, CHR ''b'']))
     = [CHR '' '', CHR '' '', CHR '' '', CHR '' '', CHR ''a'', CHR 0x0A, CHR 0x0A, CHR '' '', CHR 0x0A,
        CHR '' '', CHR '' '', CHR '' '', CHR '' '', CHR ''b'']"
    by code_simp
  have "indent_table ''      '' [CHR ''a'', CHR 0x0A, CHR 0x0A, CHR '' '', CHR 0x0A, CHR ''b'']
     = join_nl (map (\<lambda>line. if list_all is_space line then line
                              else replicate (4 * (length ''      '' div 4)) CHR '' '' @ line)
                  (split_nl [CHR ''a'', CHR 0x0A, CHR 0x0A, CHR '' '', CHR 0x0A, CHR ''b'']))"
    using C4_indentation [OF h, of "''      ''"] by (rule conjunct2)
  then show ?thesis unfolding r .
qed

text \<open>
  C4 as stated fails: with four captured spaces and the fragment \<open>a\<close>, empty line, \<open>b\<close>,
  the empty line is not prefixed, so the result differs from the fragment with every line
  prefixed.
\<close>

theorem C4_blank_lines_counterexample:
  "indent_table ''    '' [CHR ''a'', CHR 0x0A, CHR 0x0A, CHR ''b'']
     \<noteq> join_nl (map ((@) (normalize_spaces ''    ''))
           (split_nl [CHR ''a'', CHR 0x0A, CHR 0x0A, CHR ''b'']))"
  by code_simp

section \<open>Substitution of the rendered table\<close>

text \<open>
  C6. The claim: the first match is replaced by exactly the fragment's characters, also
  when the fragment holds backslashes. The hook passes the table to \<open>sub\<close> as a replacement
  template, so \<open>re\<close> reads its backslashes: in a table cell \<open>C:\temp\<close> the \<open>\t\<close> becomes
  a tab; \<open>\1\<close> is replaced by the captured leading spaces; \<open>\g<name>\<close> raises
  \<open>IndexError\<close>; and a cell \<open>C:\data\<close> makes the whole hook fail with \<open>re.error\<close>
  (bad escape \<open>\d\<close>) after the reader function has returned.
\<close>

theorem C6_backslash_reinterpreted:
  "sub ''read_csv'' (''| C:'' @ [CHR 0x5C] @ ''temp |'') ''{{ read_csv(a.csv) }}''
     = Inr (''| C:'' @ [CHR 0x09] @ ''emp |'')
   \<and> sub ''read_csv'' (''a'' @ [CHR 0x5C] @ ''1b'') ''  {{ read_csv(a.csv) }}'' = Inr ''a  b''
   \<and> sub ''read_csv'' ([CHR 0x5C] @ ''g<name>'') ''{{ read_csv(a.csv) }}'' = Inl IndexError
   \<and> on_page_markdown example_config example_site simple_parse (files_are [''/site/data/a.csv''])
       [(''read_csv'', constant_reader (''| C:'' @ [CHR 0x5C] @ ''data |''))]
       ''{{ read_csv(a.csv) }}'' start_world
     = (Inl ReError,
        \<lparr>cwd = ''/home/user'',
         trace = [Exists ''/site'' ''/site/data/a.csv'' True,
                  Call ''/site'' [VStr ''data/a.csv''] [] (Inr (''| C:'' @ [CHR 0x5C] @ ''data |''))]\<rparr>)"
  by code_simp

section \<open>Properties of the matcher\<close>

lemma rmatch_sound:
  "rmatch p s = Some r \<Longrightarrow> list_all2 fits p r \<and> (\<exists>t. s = concat r @ t)"
proof (induction p s arbitrary: r rule: rmatch.induct)
  case (1 s)
  then show ?case by simp
next
  case (2 c ps)
  then show ?case by simp
next
  case (3 c ps x xs)
  then show ?case by (auto split: if_splits)
next
  case (4 k ps)
  then show ?case by auto
next
  case (5 k ps x xs)
  show ?case
  proof (cases "in_class k x")
    case False
    with 5 show ?thesis by auto
  next
    case True
    show ?thesis
    proof (cases "rmatch (Star k # ps) xs")
      case None
      with 5 True show ?thesis by auto
    next
      case (Some r')
      show ?thesis
      proof (cases r')
        case Nil
        with 5 True Some show ?thesis by auto
      next
        case (Cons g rr)
        with 5 True Some show ?thesis by auto
      qed
    qed
  qed
next
  case (6 k ps)
  then show ?case by simp
next
  case (7 k ps x xs)
  show ?case
  proof (cases "in_class k x")
    case False
    with 7 show ?thesis by auto
  next
    case True
    show ?thesis
    proof (cases "rmatch (Star k # ps) xs")
      case None
      with 7 True show ?thesis by auto
    next
      case (Some r')
      show ?thesis
      proof (cases r')
        case Nil
        with 7 True Some show ?thesis by auto
      next
        case (Cons g rr)
        with 7 True Some show ?thesis by auto
      qed
    qed
  qed
qed

lemma search_sound:
  "search p s = Some (i, r) \<Longrightarrow>
     i \<le> length s \<and> rmatch p (drop i s) = Some r \<and> (\<forall>j<i. rmatch p (drop j s) = None)"
proof (induction s arbitrary: i)
  case Nil
  then show ?case by auto
next
  case (Cons x xs)
  show ?case
  proof (cases "rmatch p (x # xs)")
    case (Some r')
    with Cons.prems show ?thesis by auto
  next
    case None
    with Cons.prems obtain i' where i': "search p xs = Some (i', r)" "i = Suc i'"
      by (auto split: option.splits)
    from Cons.IH [OF i'(1)] have ih: "i' \<le> length xs" "rmatch p (drop i' xs) = Some r"
      "\<forall>j<i'. rmatch p (drop j xs) = None" by auto
    have "rmatch p (drop j (x # xs)) = None" if "j < i" for j
      using that None ih(3) i'(2) by (cases j) auto
    with ih i'(2) show ?thesis by auto
  qed
qed

lemma search_none: "search p s = None \<Longrightarrow> j \<le> length s \<Longrightarrow> rmatch p (drop j s) = None"
proof (induction s arbitrary: j)
  case Nil
  then show ?case by (auto split: option.splits)
next
  case (Cons x xs)
  then show ?case by (cases j) (auto split: option.splits)
qed

lemma search_complete:
  "rmatch p (drop i s) = Some r \<Longrightarrow> i \<le> length s \<Longrightarrow> \<forall>j<i. rmatch p (drop j s) = None \<Longrightarrow>
     search p s = Some (i, r)"
proof (induction s arbitrary: i)
  case Nil
  then show ?case by auto
next
  case (Cons x xs)
  show ?case
  proof (cases i)
    case 0
    with Cons.prems show ?thesis by auto
  next
    case (Suc i')
    with Cons.prems have n: "rmatch p (x # xs) = None" by force
    have "\<forall>j<i'. rmatch p (drop j xs) = None"
    proof (intro allI impI)
      fix j assume "j < i'"
      then have "Suc j < i" using Suc by simp
      with Cons.prems(3) have "rmatch p (drop (Suc j) (x # xs)) = None" by blast
      then show "rmatch p (drop j xs) = None" by simp
    qed
    with Cons.IH [of i'] Cons.prems Suc have "search p xs = Some (i', r)" by auto
    with n Suc show ?thesis by auto
  qed
qed

lemma findall_mem:
  "r \<in> set (findall p s) \<Longrightarrow> \<exists>i\<le>length s. rmatch p (drop i s) = Some r"
proof (induction p s rule: findall.induct)
  case (1 p s)
  show ?case
  proof (cases "search p s")
    case None
    with "1.prems" show ?thesis by (subst (asm) findall.simps) simp
  next
    case (Some ir)
    obtain i r0 where ir: "ir = (i, r0)" by (cases ir)
    note ss = search_sound [OF Some [unfolded ir]]
    let ?k = "i + length (concat r0)"
    show ?thesis
    proof (cases "r = r0")
      case True
      with ss show ?thesis by auto
    next
      case False
      from "1.prems" have "r \<in> set (if length (drop ?k s) < length s
           then r0 # findall p (drop ?k s) else [r0])"
        by (subst (asm) findall.simps) (simp add: Some ir)
      with False have adv: "length (drop ?k s) < length s"
        and mem: "r \<in> set (findall p (drop ?k s))"
        by (auto split: if_splits)
      from "1.IH" [OF Some ir [symmetric] adv mem]
      obtain j where j: "j \<le> length (drop ?k s)" "rmatch p (drop j (drop ?k s)) = Some r" by auto
      then have "rmatch p (drop (j + ?k) s) = Some r" by (simp add: add.commute)
      moreover have "?k \<le> length s"
      proof -
        from ss rmatch_sound [of p "drop i s" r0] obtain t where "drop i s = concat r0 @ t" by auto
        then have "length (drop i s) = length (concat r0) + length t" by simp
        moreover from ss have "i \<le> length s" by simp
        ultimately show ?thesis by simp
      qed
      then have "j + ?k \<le> length s" using j(1) by auto
      ultimately show ?thesis by blast
    qed
  qed
qed

lemma code_to_lower:
  "code (to_lower x) =
     (if (65 \<le> code x \<and> code x \<le> 90) \<or> (192 \<le> code x \<and> code x \<le> 222 \<and> code x \<noteq> 215)
      then code x + 32 else code x)"
  by (auto simp: to_lower_def code_def)

lemma code_inj: "code x = code y \<Longrightarrow> x = y"
  by (simp add: code_def)

lemma lit_exact:
  assumes "to_lower x = to_lower c"
    and "code c < 65 \<or> (90 < code c \<and> code c < 97) \<or> (122 < code c \<and> code c < 192)"
  shows "x = c"
proof -
  define a where "a = code x"
  define b where "b = code c"
  from assms(1) have "code (to_lower x) = code (to_lower c)" by simp
  then have "(if (65 \<le> a \<and> a \<le> 90) \<or> (192 \<le> a \<and> a \<le> 222 \<and> a \<noteq> 215) then a + 32 else a)
     = (if (65 \<le> b \<and> b \<le> 90) \<or> (192 \<le> b \<and> b \<le> 222 \<and> b \<noteq> 215) then b + 32 else b)"
    unfolding code_to_lower a_def b_def .
  moreover from assms(2) have "b < 65 \<or> (90 < b \<and> b < 97) \<or> (122 < b \<and> b < 192)"
    unfolding b_def .
  ultimately have "a = b"
    by (simp split: if_splits; arith)
  then show ?thesis unfolding a_def b_def by (rule code_inj)
qed

lemma fits_lit_exact:
  assumes "fits (Lit c) g"
    and "code c < 65 \<or> (90 < code c \<and> code c < 97) \<or> (122 < code c \<and> code c < 192)"
  shows "g = [c]"
proof -
  from assms(1) obtain x where "g = [x]" "to_lower x = to_lower c"
    by (auto split: list.splits)
  with lit_exact [OF _ assms(2)] show ?thesis by simp
qed

lemma fits_name:
  "list_all2 fits (map Lit reader) ys \<Longrightarrow>
     \<exists>nm. ys = map (\<lambda>x. [x]) nm \<and> map to_lower nm = map to_lower reader"
proof (induction reader arbitrary: ys)
  case Nil
  then show ?case by simp
next
  case (Cons c cs)
  from Cons.prems obtain y ys' where ys: "ys = y # ys'" "fits (Lit c) y"
    "list_all2 fits (map Lit cs) ys'"
    by (auto simp: list_all2_Cons1)
  from ys(2) obtain x where x: "y = [x]" "to_lower x = to_lower c"
    by (auto split: list.splits)
  from Cons.IH [OF ys(3)] obtain nm where "ys' = map (\<lambda>x. [x]) nm"
    "map to_lower nm = map to_lower cs" by auto
  with ys(1) x have "ys = map (\<lambda>x. [x]) (x # nm) \<and> map to_lower (x # nm) = map to_lower (c # cs)"
    by simp
  then show ?case by blast
qed

lemma concat_singletons: "concat (map (\<lambda>x. [x]) nm) = nm"
  by (induction nm) simp_all

lemma tag_match_shape:
  assumes "rmatch (tag_pattern reader) s = Some r"
  shows "\<exists>g1 w1 nm g2 w2 t.
     r = [g1, ''{'', ''{'', w1] @ map (\<lambda>x. [x]) nm @ [''('', g2, '')'', w2, ''}'', ''}'']
     \<and> s = g1 @ ''{{'' @ w1 @ nm @ ''('' @ g2 @ '')'' @ w2 @ ''}}'' @ t
     \<and> list_all (\<lambda>c. c = CHR '' '') g1
     \<and> w1 \<noteq> [] \<and> list_all is_space w1
     \<and> map to_lower nm = map to_lower reader
     \<and> g2 \<noteq> [] \<and> CHR 0x0A \<notin> set g2
     \<and> w2 \<noteq> [] \<and> list_all is_space w2"
proof -
  from rmatch_sound [OF assms] obtain t where
    fit: "list_all2 fits (tag_pattern reader) r" and s: "s = concat r @ t" by auto
  from fit obtain g1 b1 b2 w1 rest where
    r1: "r = g1 # b1 # b2 # w1 # rest"
    and f1: "fits (Star OnlySpace) g1" "fits (Lit CHR ''{'') b1" "fits (Lit CHR ''{'') b2"
      "fits (Plus Whitespace) w1"
    and frest: "list_all2 fits (map Lit reader @ [Lit CHR ''('', Plus NotNewline] @ closing) rest"
    unfolding tag_pattern_def by (auto simp: list_all2_Cons1)
  from frest obtain ys zs where
    rest: "rest = ys @ zs" and fy: "list_all2 fits (map Lit reader) ys"
    and fz: "list_all2 fits ([Lit CHR ''('', Plus NotNewline] @ closing) zs"
    by (auto simp: list_all2_append1)
  from fz obtain po g2 pc w2 c1 c2 where
    zs: "zs = [po, g2, pc, w2, c1, c2]"
    and f2: "fits (Lit CHR ''('') po" "fits (Plus NotNewline) g2" "fits (Lit CHR '')'') pc"
      "fits (Plus Whitespace) w2" "fits (Lit CHR ''}'') c1" "fits (Lit CHR ''}'') c2"
    unfolding closing_def by (auto simp: list_all2_Cons1)
  from fits_name [OF fy] obtain nm where
    nm: "ys = map (\<lambda>x. [x]) nm" "map to_lower nm = map to_lower reader" by auto
  have b: "b1 = ''{''" "b2 = ''{''" "po = ''(''" "pc = '')''" "c1 = ''}''" "c2 = ''}''"
    using f1(2,3) f2(1,3,5,6) by (auto intro!: fits_lit_exact simp: code_def)
  have nl: "CHR 0x0A \<notin> set g2" using f2(2) by (auto simp: list_all_iff)
  have "r = [g1, ''{'', ''{'', w1] @ map (\<lambda>x. [x]) nm @ [''('', g2, '')'', w2, ''}'', ''}'']"
    using r1 rest zs nm(1) b by simp
  moreover from this s have "s = g1 @ ''{{'' @ w1 @ nm @ ''('' @ g2 @ '')'' @ w2 @ ''}}'' @ t"
    by (simp add: concat_singletons)
  moreover have "list_all (\<lambda>c. c = CHR '' '') g1" using f1(1) by (simp add: list_all_iff)
  moreover have "w1 \<noteq> []" "list_all is_space w1" "w2 \<noteq> []" "list_all is_space w2" "g2 \<noteq> []"
    using f1(4) f2(2,4) by (simp_all add: list_all_iff)
  ultimately show ?thesis using nm(2) nl by blast
qed

section \<open>What the scanner recognizes\<close>

lemma drop_to_group2:
  "length xs = n \<Longrightarrow> drop (n + 5) (a # b # c # d # xs @ e # ys) = ys"
  by (simp add: numeral_eq_Suc)

lemma groups_of_shape:
  assumes "r = [g1, b1, b2, w1] @ map (\<lambda>x. [x]) nm @ [po, g2, pc, w2, c1, c2]"
    and "map to_lower nm = map to_lower reader"
  shows "group1 r = g1" and "group2 reader r = g2"
proof -
  show "group1 r = g1" using assms(1) by (simp add: group1_def)
  have "length (map (\<lambda>x. [x]) nm) = length reader"
    using map_eq_imp_length_eq [OF assms(2)] by simp
  from drop_to_group2 [OF this, of g1 b1 b2 w1 po "[g2, pc, w2, c1, c2]"]
  show "group2 reader r = g2" using assms(1) by (simp add: group2_def)
qed

lemma no_matches_unchanged:
  "matches reader md = [] \<Longrightarrow>
     on_page_markdown cfg st parse ex [(reader, function)] md w = (Inr md, w)"
  by (simp add: on_page_markdown_def initial_frame_def)

text \<open>
  C9, as amended. Every occurrence the scanner returns lies in the text as: the captured
  spaces, \<open>{{\<close>, at least one whitespace character, the tag name in any letter case,
  \<open>(\<close>, the captured arguments (at least one character, no line feed), \<open>)\<close>, at least
  one whitespace character, \<open>}}\<close>. A document that is only \<open>{{ read_csv() }}\<close> or only
  \<open>{{read_csv(f.csv)}}\<close> holds no occurrence and is returned unchanged, with nothing done
  to the world.
\<close>

theorem C9_occurrence_shape:
  assumes "plain_name reader" and "(g1, g2) \<in> set (matches reader text)"
  shows "(g2 \<noteq> [] \<and> CHR 0x0A \<notin> set g2 \<and> list_all (\<lambda>c. c = CHR '' '') g1
    \<and> (\<exists>pre w1 nm w2 post.
          text = pre @ g1 @ ''{{'' @ w1 @ nm @ ''('' @ g2 @ '')'' @ w2 @ ''}}'' @ post
          \<and> w1 \<noteq> [] \<and> list_all is_space w1 \<and> w2 \<noteq> [] \<and> list_all is_space w2
          \<and> map to_lower nm = map to_lower reader))
    \<and> on_page_markdown cfg st parse ex [(''read_csv'', function)] ''{{ read_csv() }}'' w
        = (Inr ''{{ read_csv() }}'', w)
    \<and> on_page_markdown cfg st parse ex [(''read_csv'', function)] ''{{read_csv(f.csv)}}'' w
        = (Inr ''{{read_csv(f.csv)}}'', w)"
proof -
  from assms(2) obtain r where r: "r \<in> set (findall (tag_pattern reader) text)"
    and g: "g1 = group1 r" "g2 = group2 reader r"
    by (auto simp: matches_def)
  from findall_mem [OF r] obtain i where
    i: "i \<le> length text" "rmatch (tag_pattern reader) (drop i text) = Some r" by auto
  from tag_match_shape [OF i(2)] obtain h1 w1 nm h2 w2 t where
    sh: "r = [h1, ''{'', ''{'', w1] @ map (\<lambda>x. [x]) nm @ [''('', h2, '')'', w2, ''}'', ''}'']"
      "drop i text = h1 @ ''{{'' @ w1 @ nm @ ''('' @ h2 @ '')'' @ w2 @ ''}}'' @ t"
      "list_all (\<lambda>c. c = CHR '' '') h1" "w1 \<noteq> []" "list_all is_space w1"
      "map to_lower nm = map to_lower reader" "h2 \<noteq> []" "CHR 0x0A \<notin> set h2"
      "w2 \<noteq> []" "list_all is_space w2"
    by blast
  from groups_of_shape [OF sh(1) sh(6)] g have eq: "h1 = g1" "h2 = g2" by simp_all
  have "text = take i text @ drop i text" by simp
  with sh(2) eq have
    "text = take i text @ g1 @ ''{{'' @ w1 @ nm @ ''('' @ g2 @ '')'' @ w2 @ ''}}'' @ t"
    by simp
  with sh eq have shape: "g2 \<noteq> [] \<and> CHR 0x0A \<notin> set g2 \<and> list_all (\<lambda>c. c = CHR '' '') g1
    \<and> (\<exists>pre w1 nm w2 post.
          text = pre @ g1 @ ''{{'' @ w1 @ nm @ ''('' @ g2 @ '')'' @ w2 @ ''}}'' @ post
          \<and> w1 \<noteq> [] \<and> list_all is_space w1 \<and> w2 \<noteq> [] \<and> list_all is_space w2
          \<and> map to_lower nm = map to_lower reader)"
    by blast
  have m1: "matches ''read_csv'' ''{{ read_csv() }}'' = []" by code_simp
  have m2: "matches ''read_csv'' ''{{read_csv(f.csv)}}'' = []" by code_simp
  from shape no_matches_unchanged [OF m1] no_matches_unchanged [OF m2]
  show ?thesis by blast
qed

theorem C9_occurrence_shape_witness:
  "plain_name ''read_csv''
   \<and> (''  '', ''a.csv'') \<in> set (matches ''read_csv'' ''x  {{ Read_CSV(a.csv) }}'')
   \<and> (\<exists>pre w1 nm w2 post.
          ''x  {{ Read_CSV(a.csv) }}'' = pre @ ''  '' @ ''{{'' @ w1 @ nm @ ''('' @ ''a.csv'' @ '')'' @ w2 @ ''}}'' @ post
          \<and> w1 \<noteq> [] \<and> list_all is_space w1 \<and> w2 \<noteq> [] \<and> list_all is_space w2
          \<and> map to_lower nm = map to_lower ''read_csv'')"
proof -
  have h1: "plain_name ''read_csv''" by code_simp
  have h2: "(''  '', ''a.csv'') \<in> set (matches ''read_csv'' ''x  {{ Read_CSV(a.csv) }}'')"
    by code_simp
  from C9_occurrence_shape [OF h1 h2] have
    "\<exists>pre w1 nm w2 post.
          ''x  {{ Read_CSV(a.csv) }}'' = pre @ ''  '' @ ''{{'' @ w1 @ nm @ ''('' @ ''a.csv'' @ '')'' @ w2 @ ''}}'' @ post
          \<and> w1 \<noteq> [] \<and> list_all is_space w1 \<and> w2 \<noteq> [] \<and> list_all is_space w2
          \<and> map to_lower nm = map to_lower ''read_csv''"
    by blast
  with h1 h2 show ?thesis by blast
qed

text \<open>
  C9 as stated fails: in \<open>{{ read_csv() }} {{ read_csv(b.csv) }}\<close> the tag with the empty
  argument list is where an occurrence starts. The greedy capture takes
  \<open>) }} {{ read_csv(b.csv\<close> as its arguments, and the hook goes on to look for a file of
  that name instead of leaving the text as it is.
\<close>

theorem C9_empty_arguments_counterexample:
  "matches ''read_csv'' ''{{ read_csv() }} {{ read_csv(b.csv) }}''
     = [([], '') }} {{ read_csv(b.csv'')]
   \<and> fst (on_page_markdown example_config example_site simple_parse (files_are [''/site/data/b.csv''])
       [(''read_csv'', constant_reader ''T'')] ''{{ read_csv() }} {{ read_csv(b.csv) }}'' start_world)
     = Inl (FileNotFoundError ''data/) }} {{ read_csv(b.csv'' [''data'', ''/site/docs/page_dir''])"
  by code_simp

section \<open>Two tags on one line\<close>

lemma rmatch_lits:
  "rmatch (map Lit nm @ ps) (nm @ s) = map_option ((@) (map (\<lambda>x. [x]) nm)) (rmatch ps s)"
proof (induction nm)
  case Nil
  show ?case by (simp add: option.map_ident)
next
  case (Cons c cs)
  then show ?case by (simp add: option.map_comp comp_def)
qed

lemma close_at_end:
  "rmatch (Star NotNewline # closing) '') }}'' = Some [[], '')'', '' '', ''}'', ''}'']"
  by code_simp

lemma greedy_close:
  "CHR 0x0A \<notin> set X \<Longrightarrow>
     rmatch (Star NotNewline # closing) (X @ '') }}'') = Some [X, '')'', '' '', ''}'', ''}'']"
proof (induction X)
  case Nil
  show ?case using close_at_end by simp
next
  case (Cons x xs)
  then show ?case by auto
qed

lemma plain_not_space: "plain_char c \<Longrightarrow> \<not> is_space c"
  unfolding plain_char_def is_space_def by arith

lemma star_stop:
  "\<not> in_class k c \<Longrightarrow>
     rmatch (Star k # ps) (c # xs) = map_option ((#) []) (rmatch ps (c # xs))"
  by simp

lemma paren_not_space: "\<not> is_space CHR ''(''" and space_is_space: "is_space CHR '' ''"
  by code_simp+

lemma tag_match_greedy:
  assumes "plain_name reader" and "X \<noteq> []" and "CHR 0x0A \<notin> set X"
  shows "rmatch (tag_pattern reader) (''{{ '' @ reader @ ''('' @ X @ '') }}'')
     = Some ([[], ''{'', ''{'', '' ''] @ map (\<lambda>x. [x]) reader @ [''('', X, '')'', '' '', ''}'', ''}''])"
proof -
  let ?tail = "[Lit CHR ''('', Plus NotNewline] @ closing"
  from assms(2) obtain x xs where X: "X = x # xs" by (cases X) auto
  with assms(3) have x: "x \<noteq> CHR 0x0A" "CHR 0x0A \<notin> set xs" by auto
  have A: "rmatch ?tail (''('' @ X @ '') }}'') = Some [''('', X, '')'', '' '', ''}'', ''}'']"
    using greedy_close [OF x(2)] x(1) by (simp add: X)
  have B: "rmatch (map Lit reader @ ?tail) (reader @ ''('' @ X @ '') }}'')
     = Some (map (\<lambda>x. [x]) reader @ [''('', X, '')'', '' '', ''}'', ''}''])"
    unfolding rmatch_lits A by simp
  have C: "rmatch (Star Whitespace # map Lit reader @ ?tail) (reader @ ''('' @ X @ '') }}'')
     = Some ([] # map (\<lambda>x. [x]) reader @ [''('', X, '')'', '' '', ''}'', ''}''])"
  proof (cases reader)
    case Nil
    have "rmatch (Star Whitespace # ?tail) (CHR ''('' # X @ '') }}'')
       = map_option ((#) []) (rmatch ?tail (CHR ''('' # X @ '') }}''))"
      by (rule star_stop) (simp add: paren_not_space)
    with A Nil show ?thesis by simp
  next
    case (Cons c cs)
    with assms(1) have "\<not> is_space c" by (simp add: plain_name_def plain_not_space)
    then have "rmatch (Star Whitespace # map Lit reader @ ?tail) (c # cs @ ''('' @ X @ '') }}'')
       = map_option ((#) []) (rmatch (map Lit reader @ ?tail) (c # cs @ ''('' @ X @ '') }}''))"
      by (intro star_stop) simp
    with B Cons show ?thesis by simp
  qed
  have D: "rmatch (Plus Whitespace # map Lit reader @ ?tail) ('' '' @ reader @ ''('' @ X @ '') }}'')
     = Some ('' '' # map (\<lambda>x. [x]) reader @ [''('', X, '')'', '' '', ''}'', ''}''])"
    using C by (simp add: space_is_space)
  have E: "rmatch (tag_pattern reader) (''{{ '' @ reader @ ''('' @ X @ '') }}'')
     = map_option (\<lambda>r. [] # ''{'' # ''{'' # r)
         (rmatch (Plus Whitespace # map Lit reader @ ?tail) ('' '' @ reader @ ''('' @ X @ '') }}''))"
    by (simp add: tag_pattern_def option.map_comp comp_def)
  show ?thesis unfolding E D by simp
qed

lemma tag_pattern_not_empty: "rmatch (tag_pattern reader) [] = None"
  by (simp add: tag_pattern_def)

lemma findall_single:
  assumes "rmatch p s = Some r" and "concat r = s" and "s \<noteq> []" and "rmatch p [] = None"
  shows "findall p s = [r]"
proof -
  from assms(3) obtain x xs where s: "s = x # xs" by (cases s) auto
  have "search p s = Some (0, r)" using assms(1) by (simp add: s)
  moreover have "findall p [] = []" using assms(4) by (simp add: findall.simps)
  ultimately show ?thesis using assms(2,3) by (simp add: findall.simps [of p s])
qed

lemma plain_not_newline: "plain_char c \<Longrightarrow> c \<noteq> CHR 0x0A"
  unfolding plain_char_def code_def by auto

text \<open>
  The argument capture \<open>(.+)\<close> of line 79 is greedy. Two complete tags of the same name on
  one line, with any text free of line feeds for their arguments and between them, are one
  occurrence: its arguments run from the first tag's arguments to the second tag's, over
  everything between, up to the last \<open>) }}\<close> of the line.
\<close>

lemma two_tags_one_occurrence:
  assumes "plain_name reader"
    and "CHR 0x0A \<notin> set a" and "CHR 0x0A \<notin> set m" and "CHR 0x0A \<notin> set b"
  shows "matches reader
           (''{{ '' @ reader @ ''('' @ a @ '') }}'' @ m @ ''{{ '' @ reader @ ''('' @ b @ '') }}'')
     = [([], a @ '') }}'' @ m @ ''{{ '' @ reader @ ''('' @ b)]"
proof -
  let ?X = "a @ '') }}'' @ m @ ''{{ '' @ reader @ ''('' @ b"
  let ?text = "''{{ '' @ reader @ ''('' @ ?X @ '') }}''"
  let ?r = "[[], ''{'', ''{'', '' ''] @ map (\<lambda>x. [x]) reader @ [''('', ?X, '')'', '' '', ''}'', ''}'']"
  have "CHR 0x0A \<notin> set reader"
    using assms(1) plain_not_newline by (auto simp: plain_name_def list_all_iff)
  with assms have nl: "CHR 0x0A \<notin> set ?X" by simp
  have ne: "?X \<noteq> []" by simp
  have m: "rmatch (tag_pattern reader) ?text = Some ?r"
    by (rule tag_match_greedy [OF assms(1) ne nl])
  have c: "concat ?r = ?text" by (simp add: concat_singletons)
  have "findall (tag_pattern reader) ?text = [?r]"
    by (rule findall_single [OF m c _ tag_pattern_not_empty]) simp
  moreover have "group1 ?r = []" "group2 reader ?r = ?X"
    by (rule groups_of_shape [OF refl refl])+
  ultimately have "matches reader ?text = [([], ?X)]"
    by (simp add: matches_def)
  then show ?thesis by simp
qed

text \<open>
  C5. The claim: a line that holds two complete tags of the same name gives two occurrences,
  left to right, each with its own arguments, the capture stopping at the first closing
  \<open>) }}\<close>. The code's comment on the pattern says that its second group extracts the
  arguments of the tag. With the greedy \<open>(.+)\<close> the line
  \<open>{{ read_csv(a.csv) }} {{ read_csv(b.csv) }}\<close> gives one occurrence with the arguments
  \<open>a.csv) }} {{ read_csv(b.csv\<close>, not one for \<open>a.csv\<close> and one for \<open>b.csv\<close>. On the
  example site, with both files present in the data directory, the hook then looks for a
  file of that name in both search directories and raises \<open>FileNotFoundError\<close>; no reader
  function is called and no document is returned.
\<close>

theorem C5_two_tags_one_line_one_occurrence:
  "matches ''read_csv'' ''{{ read_csv(a.csv) }} {{ read_csv(b.csv) }}''
     = [([], ''a.csv) }} {{ read_csv(b.csv'')]
   \<and> matches ''read_csv'' ''{{ read_csv(a.csv) }} {{ read_csv(b.csv) }}''
     \<noteq> [([], ''a.csv''), ([], ''b.csv'')]
   \<and> files_are [''/site/data/a.csv'', ''/site/data/b.csv''] ''/site''
       (path_join ''/site'' (path_join ''data'' ''a.csv''))
   \<and> files_are [''/site/data/a.csv'', ''/site/data/b.csv''] ''/site''
       (path_join ''/site'' (path_join ''data'' ''b.csv''))
   \<and> on_page_markdown example_config example_site simple_parse
       (files_are [''/site/data/a.csv'', ''/site/data/b.csv''])
       [(''read_csv'', constant_reader ''T'')]
       ''{{ read_csv(a.csv) }} {{ read_csv(b.csv) }}'' start_world
     = (Inl (FileNotFoundError ''data/a.csv) }} {{ read_csv(b.csv''
              [''data'', ''/site/docs/page_dir'']),
        \<lparr>cwd = ''/home/user'',
         trace = [Exists ''/site'' ''/site/data/a.csv) }} {{ read_csv(b.csv'' False,
                  Exists ''/site'' ''/site/docs/page_dir/data/a.csv) }} {{ read_csv(b.csv'' False]\<rparr>)"
  by code_simp

section \<open>An occurrence without a path argument\<close>

text \<open>
  C10, as amended. While \<open>output_file_path\<close> is still unbound (no earlier occurrence of
  this run of the hook assigned it, as for the first occurrence of a document), an
  occurrence whose parsed arguments hold no positional value and no truthy keyword
  \<open>filepath_or_buffer\<close> fails with \<open>UnboundLocalError\<close> at the existence check of the first
  search directory: the world is as before (no existence check was made, no reader function
  was called, the working directory is restored) and no document is returned.
\<close>

theorem C10_unbound_output_file_path:
  assumes "parse_argkwarg E (snd result) = Inr ([], kwargs)"
    and "(case map_of kwargs ''filepath_or_buffer'' of None \<Rightarrow> False | Some v \<Rightarrow> truthy v) = False"
    and "output_file_path f = None"
    and "search_directories E \<noteq> []"
  shows "process_result E reader function result f w
     = (Inl (UnboundLocalError ''output_file_path''), w)"
proof -
  from assms(4) obtain d ds where dirs: "search_directories E = d # ds"
    by (cases "search_directories E") auto
  let ?f = "f\<lparr>pd_args := [], pd_kwargs := kwargs\<rparr>"
  let ?w = "w\<lparr>cwd := mkdocs_dir E\<rparr>"
  have p: "rewrite_positional d ?f = Inr ?f" by (simp add: rewrite_positional_def)
  have k: "rewrite_keyword d ?f = Inr ?f"
    using assms(2) by (auto simp: rewrite_keyword_def split: option.splits)
  have "try_directory E d ?f ?w = (Inl (UnboundLocalError ''output_file_path''), ?w)"
    using assms(3) by (simp add: try_directory_def p k)
  then have "find_file E (search_directories E) ?f ?w
     = (Inl (UnboundLocalError ''output_file_path''), ?w)"
    by (simp add: dirs)
  then have "load_table E function ?f ?w = (Inl (UnboundLocalError ''output_file_path''), ?w)"
    by (simp add: load_table_def)
  then have "cd (mkdocs_dir E) (load_table E function ?f) w
     = (Inl (UnboundLocalError ''output_file_path''), w)"
    by (simp add: cd_def)
  with assms(1) show ?thesis by (simp add: process_result_def)
qed

theorem C10_unbound_output_file_path_witness:
  "process_result (hook_env example_config example_site simple_parse (files_are [''/site/data/a.csv'']))
       ''read_csv'' (constant_reader ''T'') ([], ''sep=1'')
       (initial_frame ''{{ read_csv(sep=1) }}'') start_world
     = (Inl (UnboundLocalError ''output_file_path''), start_world)"
proof -
  let ?E = "hook_env example_config example_site simple_parse (files_are [''/site/data/a.csv''])"
  have h1: "parse_argkwarg ?E (snd ([], ''sep=1'')) = Inr ([], [(''sep'', VInt 1)])"
    by code_simp
  have h2: "(case map_of [(''sep'', VInt 1)] ''filepath_or_buffer'' of None \<Rightarrow> False
       | Some v \<Rightarrow> truthy v) = False"
    by code_simp
  have h3: "output_file_path (initial_frame ''{{ read_csv(sep=1) }}'') = None"
    by (simp add: initial_frame_def)
  have h4: "search_directories ?E \<noteq> []"
    by (simp add: hook_env_def the_search_directories_def)
  show ?thesis by (rule C10_unbound_output_file_path [OF h1 h2 h3 h4])
qed

text \<open>
  C10 as stated fails for a later occurrence. In a document with the tags
  \<open>{{ read_csv(a.csv) }}\<close> and \<open>{{ read_csv(sep=1) }}\<close>, the second tag has no positional
  value and no \<open>filepath_or_buffer\<close>, but \<open>output_file_path\<close> still holds the path the
  first tag left: the existence check is made on it, the reader function is called with no
  path at all, and the hook returns a document with both tags replaced.
\<close>

theorem C10_stale_path_counterexample:
  "on_page_markdown example_config example_site simple_parse (files_are [''/site/data/a.csv''])
       [(''read_csv'', constant_reader ''T'')]
       (''{{ read_csv(a.csv) }}'' @ [CHR 0x0A] @ ''{{ read_csv(sep=1) }}'') start_world
     = (Inr (''T'' @ [CHR 0x0A] @ ''T''),
        \<lparr>cwd = ''/home/user'',
         trace = [Exists ''/site'' ''/site/data/a.csv'' True,
                  Call ''/site'' [VStr ''data/a.csv''] [] (Inr ''T''),
                  Exists ''/site'' ''/site/data/a.csv'' True,
                  Call ''/site'' [] [(''sep'', VInt 1)] (Inr ''T'')]\<rparr>)"
  by code_simp

section \<open>What a run of the hook does to the world\<close>

lemma err_of_Inl [simp]: "err_of (Inl e) = Some e"
  by (simp add: err_of_def)

lemma err_of_Inr [simp]: "err_of (Inr x) = None"
  by (simp add: err_of_def)

lemma calls_ok_nofail: "list_all (\<lambda>ev. failed_with ev = None) evs \<Longrightarrow> calls_ok evs r"
  by (induction evs r rule: calls_ok.induct) auto

lemma calls_ok_None: "calls_ok evs None \<Longrightarrow> list_all (\<lambda>ev. failed_with ev = None) evs"
  by (induction evs "None :: exn option" rule: calls_ok.induct) (auto split: option.splits)

lemma calls_ok_append:
  "list_all (\<lambda>ev. failed_with ev = None) xs \<Longrightarrow> calls_ok ys r \<Longrightarrow> calls_ok (xs @ ys) r"
proof (induction xs)
  case Nil
  then show ?case by simp
next
  case (Cons x xs)
  then have "calls_ok (xs @ ys) r" by simp
  with Cons.prems(1) show ?case by (cases "xs @ ys") auto
qed

lemma calls_ok_failed_last:
  "calls_ok (pre @ Call d a k (Inl e) # post) r \<Longrightarrow> post = [] \<and> r = Some e"
proof (induction pre)
  case Nil
  then show ?case by (cases post) auto
next
  case (Cons x xs)
  then show ?case by (cases "xs @ Call d a k (Inl e) # post") auto
qed

lemma run_ok_refl: "run_ok d w r w"
  by (simp add: run_ok_def)

lemma run_ok_trans:
  assumes "run_ok d w None w1" and "run_ok d w1 r w2"
  shows "run_ok d w r w2"
proof -
  from assms(1) obtain n1 where n1: "cwd w1 = cwd w" "trace w1 = trace w @ n1"
    "list_all (in_dir d) n1" "calls_ok n1 None" by (auto simp: run_ok_def)
  from assms(2) obtain n2 where n2: "cwd w2 = cwd w1" "trace w2 = trace w1 @ n2"
    "list_all (in_dir d) n2" "calls_ok n2 r" by (auto simp: run_ok_def)
  have "calls_ok (n1 @ n2) r"
    using calls_ok_append [OF calls_ok_None [OF n1(4)] n2(4)] .
  with n1 n2 show ?thesis by (auto simp: run_ok_def)
qed

lemma try_directory_run:
  assumes "try_directory E d f w = (res, w')"
  shows "cwd w' = cwd w \<and>
     (\<exists>new. trace w' = trace w @ new \<and> list_all (in_dir (cwd w)) new
        \<and> list_all (\<lambda>ev. failed_with ev = None) new)"
  using assms unfolding try_directory_def Let_def
  by (auto split: sum.splits option.splits)

lemma find_file_run:
  assumes "find_file E ds f w = (res, w')"
  shows "cwd w' = cwd w \<and>
     (\<exists>new. trace w' = trace w @ new \<and> list_all (in_dir (cwd w)) new
        \<and> list_all (\<lambda>ev. failed_with ev = None) new)"
  using assms
proof (induction ds arbitrary: f w)
  case Nil
  then show ?case by (auto split: option.splits)
next
  case (Cons d ds)
  obtain r1 w1 where t: "try_directory E d f w = (r1, w1)" by (cases "try_directory E d f w")
  note t1 = try_directory_run [OF t]
  show ?case
  proof (cases r1)
    case (Inl e)
    with Cons.prems t t1 show ?thesis by auto
  next
    case (Inr p)
    obtain found f' where p: "p = (found, f')" by (cases p)
    show ?thesis
    proof (cases found)
      case True
      with Cons.prems t t1 Inr p show ?thesis by auto
    next
      case False
      with Cons.prems t Inr p have "find_file E ds f' w1 = (res, w')" by simp
      from Cons.IH [OF this] t1 show ?thesis by auto
    qed
  qed
qed

lemma load_table_run:
  assumes "load_table E function f w = (res, w')"
  shows "run_ok (cwd w) w (err_of res) w'"
proof -
  obtain r1 w1 where ff: "find_file E (search_directories E) f w = (r1, w1)"
    by (cases "find_file E (search_directories E) f w")
  from find_file_run [OF ff] obtain new where
    n: "cwd w1 = cwd w" "trace w1 = trace w @ new" "list_all (in_dir (cwd w)) new"
      "list_all (\<lambda>ev. failed_with ev = None) new" by auto
  show ?thesis
  proof (cases r1)
    case (Inl e)
    with assms ff have "w' = w1" by (simp add: load_table_def)
    with n calls_ok_nofail [OF n(4)] show ?thesis by (auto simp: run_ok_def)
  next
    case (Inr f')
    let ?out = "function (pd_args f') (pd_kwargs f') (cwd w1)"
    let ?ev = "Call (cwd w1) (pd_args f') (pd_kwargs f') ?out"
    from assms ff Inr have w': "w' = w1\<lparr>trace := trace w1 @ [?ev]\<rparr>"
      and res: "res = (case ?out of Inl e \<Rightarrow> Inl e | Inr t \<Rightarrow> Inr (t, f'))"
      by (auto simp: load_table_def Let_def split: sum.splits)
    have "calls_ok [?ev] (err_of res)"
      by (auto simp: res err_of_def split: sum.splits)
    from calls_ok_append [OF n(4) this] have "calls_ok (new @ [?ev]) (err_of res)" .
    with n w' show ?thesis by (auto simp: run_ok_def)
  qed
qed

lemma process_result_run:
  assumes "process_result E reader function result f w = (res, w')"
  shows "run_ok (mkdocs_dir E) w (err_of res) w'"
proof (cases "parse_argkwarg E (snd result)")
  case (Inl e)
  with assms have "w' = w" by (simp add: process_result_def)
  then show ?thesis by (simp add: run_ok_refl)
next
  case (Inr ak)
  obtain args kwargs where ak: "ak = (args, kwargs)" by (cases ak)
  let ?f = "f\<lparr>pd_args := args, pd_kwargs := kwargs\<rparr>"
  let ?w = "w\<lparr>cwd := mkdocs_dir E\<rparr>"
  obtain r1 w1 where lt: "load_table E function ?f ?w = (r1, w1)"
    by (cases "load_table E function ?f ?w")
  from load_table_run [OF lt] obtain new where
    n: "trace w1 = trace w @ new" "list_all (in_dir (mkdocs_dir E)) new"
      "calls_ok new (err_of r1)" by (auto simp: run_ok_def)
  have cdr: "cd (mkdocs_dir E) (load_table E function ?f) w = (r1, w1\<lparr>cwd := cwd w\<rparr>)"
    by (simp add: cd_def lt)
  show ?thesis
  proof (cases r1)
    case (Inl e)
    with assms Inr ak cdr have "res = Inl e" "w' = w1\<lparr>cwd := cwd w\<rparr>"
      by (simp_all add: process_result_def)
    with n Inl show ?thesis by (auto simp: run_ok_def)
  next
    case (Inr tf)
    with n(3) have nf: "list_all (\<lambda>ev. failed_with ev = None) new"
      by (auto simp: err_of_def intro: calls_ok_None)
    from assms \<open>parse_argkwarg E (snd result) = Inr ak\<close> ak cdr Inr
    have "w' = w1\<lparr>cwd := cwd w\<rparr>"
      by (auto simp: process_result_def split: sum.splits prod.splits)
    with n nf show ?thesis by (auto simp: run_ok_def intro: calls_ok_nofail)
  qed
qed

lemma for_results_run:
  assumes "for_results E reader function results f w = (res, w')"
  shows "run_ok (mkdocs_dir E) w (err_of res) w'"
  using assms
proof (induction results arbitrary: f w)
  case Nil
  then show ?case by (auto simp: run_ok_refl)
next
  case (Cons result results)
  obtain r1 w1 where p: "process_result E reader function result f w = (r1, w1)"
    by (cases "process_result E reader function result f w")
  note p1 = process_result_run [OF p]
  show ?case
  proof (cases r1)
    case (Inl e)
    with Cons.prems p p1 show ?thesis by auto
  next
    case (Inr f')
    with Cons.prems p have "for_results E reader function results f' w1 = (res, w')" by simp
    from Cons.IH [OF this] p1 Inr show ?thesis
      by (auto simp: err_of_def intro: run_ok_trans)
  qed
qed

lemma for_readers_run:
  assumes "for_readers E READERS f w = (res, w')"
  shows "run_ok (mkdocs_dir E) w (err_of res) w'"
  using assms
proof (induction READERS arbitrary: f w)
  case Nil
  then show ?case by (auto simp: run_ok_refl)
next
  case (Cons rf rs)
  obtain reader fn where rf: "rf = (reader, fn)" by (cases rf)
  obtain r1 w1 where p:
    "for_results E reader fn (matches reader (markdown f)) f w = (r1, w1)"
    by (cases "for_results E reader fn (matches reader (markdown f)) f w")
  note p1 = for_results_run [OF p]
  show ?case
  proof (cases r1)
    case (Inl e)
    with Cons.prems rf p p1 show ?thesis by auto
  next
    case (Inr f')
    with Cons.prems rf p have "for_readers E rs f' w1 = (res, w')" by simp
    from Cons.IH [OF this] p1 Inr show ?thesis
      by (auto simp: err_of_def intro: run_ok_trans)
  qed
qed

lemma on_page_markdown_run:
  assumes "on_page_markdown cfg st parse ex READERS md w = (res, w')"
  shows "run_ok (the_mkdocs_dir cfg st) w (err_of res) w'"
proof -
  let ?E = "hook_env cfg st parse ex"
  obtain r1 w1 where p: "for_readers ?E READERS (initial_frame md) w = (r1, w1)"
    by (cases "for_readers ?E READERS (initial_frame md) w")
  from for_readers_run [OF p] have "run_ok (the_mkdocs_dir cfg st) w (err_of r1) w1"
    by (simp add: hook_env_def)
  moreover from assms p have "w' = w1" "err_of res = err_of r1"
    by (auto simp: on_page_markdown_def err_of_def split: sum.splits)
  ultimately show ?thesis by simp
qed

text \<open>
  C8. For every occurrence, whatever the outcome (a parse error, \<open>FileNotFoundError\<close>, an
  exception of the reader function, a failed substitution or success), the working
  directory after the occurrence is the one before it, and every existence check and every
  call of the reader function the occurrence made ran in the base directory.
\<close>

theorem C8_working_directory_scoped:
  assumes "process_result E reader function result f w = (res, w')"
  shows "cwd w' = cwd w
     \<and> (\<exists>new. trace w' = trace w @ new \<and> list_all (in_dir (mkdocs_dir E)) new)"
  using process_result_run [OF assms] by (auto simp: run_ok_def)

theorem C8_working_directory_scoped_witness:
  "fst (process_result (hook_env example_config example_site simple_parse (files_are []))
       ''read_csv'' (constant_reader ''T'') ([], ''a.csv'')
       (initial_frame ''{{ read_csv(a.csv) }}'') start_world)
     = Inl (FileNotFoundError ''data/a.csv'' [''data'', ''/site/docs/page_dir''])
   \<and> length (trace (snd (process_result
       (hook_env example_config example_site simple_parse (files_are []))
       ''read_csv'' (constant_reader ''T'') ([], ''a.csv'')
       (initial_frame ''{{ read_csv(a.csv) }}'') start_world))) = 2
   \<and> cwd (snd (process_result (hook_env example_config example_site simple_parse (files_are []))
       ''read_csv'' (constant_reader ''T'') ([], ''a.csv'')
       (initial_frame ''{{ read_csv(a.csv) }}'') start_world)) = ''/home/user''
   \<and> list_all (in_dir ''/site'') (trace (snd (process_result
       (hook_env example_config example_site simple_parse (files_are []))
       ''read_csv'' (constant_reader ''T'') ([], ''a.csv'')
       (initial_frame ''{{ read_csv(a.csv) }}'') start_world)))"
proof -
  let ?E = "hook_env example_config example_site simple_parse (files_are [])"
  let ?p = "process_result ?E ''read_csv'' (constant_reader ''T'') ([], ''a.csv'')
       (initial_frame ''{{ read_csv(a.csv) }}'') start_world"
  have r: "fst ?p = Inl (FileNotFoundError ''data/a.csv'' [''data'', ''/site/docs/page_dir''])"
    by code_simp
  have n: "length (trace (snd ?p)) = 2"
    by code_simp
  have d: "mkdocs_dir ?E = ''/site''"
    by code_simp
  have s: "cwd start_world = ''/home/user''" "trace start_world = []"
    by (simp_all add: start_world_def)
  have "?p = (fst ?p, snd ?p)" by simp
  from C8_working_directory_scoped [OF this]
  have "cwd (snd ?p) = ''/home/user'' \<and> list_all (in_dir ''/site'') (trace (snd ?p))"
    unfolding d s by auto
  with r n show ?thesis by blast
qed

text \<open>
  C7. For every document: when a call of a reader function raised, that call is the last
  thing the hook did (no later existence check, no later call, so no retry and no further
  occurrence is processed) and the hook ends with exactly that exception, which means that
  it returns no document text at all.
\<close>

theorem C7_reader_error_propagates:
  assumes "on_page_markdown cfg st parse ex READERS md w = (res, w')"
    and "trace w' = trace w @ pre @ Call d a k (Inl e) # post"
  shows "post = [] \<and> res = Inl e"
proof -
  from on_page_markdown_run [OF assms(1)] obtain new where
    n: "trace w' = trace w @ new" "calls_ok new (err_of res)"
    by (auto simp: run_ok_def)
  from n(1) assms(2) have "new = pre @ Call d a k (Inl e) # post" by simp
  with n(2) have "post = [] \<and> err_of res = Some e"
    by (auto dest: calls_ok_failed_last)
  then show ?thesis by (cases res) auto
qed

theorem C7_reader_error_propagates_witness:
  "trace (snd (on_page_markdown example_config example_site simple_parse
       (files_are [''/site/data/a.csv''])
       [(''read_csv'', constant_reader ''T''), (''read_table'', failing_reader (Raised ''boom''))]
       (''{{ read_csv(a.csv) }}'' @ [CHR 0x0A] @ ''{{ read_table(a.csv) }}'' @ [CHR 0x0A]
          @ ''{{ read_table(a.csv) }}'')
       start_world))
     = trace start_world
       @ [Exists ''/site'' ''/site/data/a.csv'' True,
          Call ''/site'' [VStr ''data/a.csv''] [] (Inr ''T''),
          Exists ''/site'' ''/site/data/a.csv'' True]
       @ Call ''/site'' [VStr ''data/a.csv''] [] (Inl (Raised ''boom'')) # []
   \<and> fst (on_page_markdown example_config example_site simple_parse
       (files_are [''/site/data/a.csv''])
       [(''read_csv'', constant_reader ''T''), (''read_table'', failing_reader (Raised ''boom''))]
       (''{{ read_csv(a.csv) }}'' @ [CHR 0x0A] @ ''{{ read_table(a.csv) }}'' @ [CHR 0x0A]
          @ ''{{ read_table(a.csv) }}'')
       start_world)
     = Inl (Raised ''boom'')"
proof -
  let ?p = "on_page_markdown example_config example_site simple_parse
       (files_are [''/site/data/a.csv''])
       [(''read_csv'', constant_reader ''T''), (''read_table'', failing_reader (Raised ''boom''))]
       (''{{ read_csv(a.csv) }}'' @ [CHR 0x0A] @ ''{{ read_table(a.csv) }}'' @ [CHR 0x0A]
          @ ''{{ read_table(a.csv) }}'')
       start_world"
  have t: "trace (snd ?p)
     = trace start_world
       @ [Exists ''/site'' ''/site/data/a.csv'' True,
          Call ''/site'' [VStr ''data/a.csv''] [] (Inr ''T''),
          Exists ''/site'' ''/site/data/a.csv'' True]
       @ Call ''/site'' [VStr ''data/a.csv''] [] (Inl (Raised ''boom'')) # []"
    by code_simp
  have "?p = (fst ?p, snd ?p)" by simp
  from C7_reader_error_propagates [OF this t] have "fst ?p = Inl (Raised ''boom'')"
    by (rule conjunct2)
  with t show ?thesis by (rule conjI)
qed

section \<open>Two identical tags\<close>

lemma parse_template_plain:
  "CHR 0x5C \<notin> set repl \<Longrightarrow> parse_template repl = Inr (map (\<lambda>c. TLit [c]) repl)"
  by (induction repl) auto

lemma expand_plain: "expand reader r (map (\<lambda>c. TLit [c]) repl) = repl"
  by (induction repl) (simp_all add: expand_def)

lemma sub_plain:
  assumes "CHR 0x5C \<notin> set repl" and "search (tag_pattern reader) s = Some (i, r)"
  shows "sub reader repl s = Inr (take i s @ repl @ drop (i + length (concat r)) s)"
  by (simp add: sub_def parse_template_plain [OF assms(1)] assms(2) expand_plain)

lemma tag_match_not_empty:
  assumes "rmatch (tag_pattern reader) s = Some r"
  shows "concat r \<noteq> []"
proof -
  from tag_match_shape [OF assms] obtain g1 w1 nm g2 w2 where
    "r = [g1, ''{'', ''{'', w1] @ map (\<lambda>x. [x]) nm @ [''('', g2, '')'', w2, ''}'', ''}'']"
    by blast
  then show ?thesis by simp
qed

text \<open>
  C3, as amended. Let the first discovered occurrence be the text \<open>T\<close> right after \<open>pre\<close>
  and the second the same text \<open>T\<close> right after \<open>mid\<close>. When neither fragment holds a
  backslash, and in the text after the first replacement no match of the tag pattern begins
  before the second occurrence, the first application replaces the first occurrence by the
  first fragment and nothing else, and the second application replaces the second occurrence
  by the second fragment and nothing else.
\<close>

theorem C3_two_identical_tags:
  assumes "src = pre @ T @ mid @ T @ post"
    and "search (tag_pattern reader) src = Some (length pre, r1)" and "concat r1 = T"
    and "search (tag_pattern reader) (mid @ T @ post) = Some (length mid, r2)" and "concat r2 = T"
    and "CHR 0x5C \<notin> set F1" and "CHR 0x5C \<notin> set F2"
    and "\<forall>j < length (pre @ F1 @ mid).
           rmatch (tag_pattern reader) (drop j (pre @ F1 @ mid @ T @ post)) = None"
  shows "(\<exists>more. findall (tag_pattern reader) src = r1 # r2 # more)
     \<and> sub reader F1 src = Inr (pre @ F1 @ mid @ T @ post)
     \<and> sub reader F2 (pre @ F1 @ mid @ T @ post) = Inr (pre @ F1 @ mid @ F2 @ post)"
proof -
  let ?p = "tag_pattern reader"
  let ?s1 = "pre @ F1 @ mid @ T @ post"
  let ?k = "length (pre @ F1 @ mid)"
  have d1: "drop (length pre + length (concat r1)) src = mid @ T @ post"
    by (simp add: assms(1,3))
  from search_sound [OF assms(2)] have "rmatch ?p (drop (length pre) src) = Some r1" by simp
  from tag_match_not_empty [OF this] have "T \<noteq> []" by (simp add: assms(3))
  then have adv1: "length (mid @ T @ post) < length src" by (simp add: assms(1))
  have d2: "drop (length mid + length (concat r2)) (mid @ T @ post) = post"
    by (simp add: assms(5))
  have "\<exists>more. findall ?p (mid @ T @ post) = r2 # more"
    by (subst findall.simps) (simp add: assms(4) d2)
  then obtain more where "findall ?p (mid @ T @ post) = r2 # more" ..
  then have fm: "findall ?p (mid @ T @ post) = r2 # more" .
  have "findall ?p src =
      (if length (drop (length pre + length (concat r1)) src) < length src
       then r1 # findall ?p (drop (length pre + length (concat r1)) src) else [r1])"
    by (subst findall.simps) (simp add: assms(2) del: length_drop)
  then have f: "findall ?p src = r1 # r2 # more"
    unfolding d1 using adv1 fm by simp
  from sub_plain [OF assms(6) assms(2)] have s1: "sub reader F1 src = Inr ?s1"
    by (simp add: assms(1,3))
  from search_sound [OF assms(4)] have m2: "rmatch ?p (drop ?k ?s1) = Some r2" by simp
  have "search ?p ?s1 = Some (?k, r2)"
    by (rule search_complete [OF m2 _ assms(8)]) simp
  from sub_plain [OF assms(7) this] have s2: "sub reader F2 ?s1 = Inr (pre @ F1 @ mid @ F2 @ post)"
    by (simp add: assms(5))
  from f s1 s2 show ?thesis by blast
qed

theorem C3_two_identical_tags_witness:
  "sub ''read_csv'' (''| a |'' @ [CHR 0x0A] @ ''| 1 |'')
       ((''Intro'' @ [CHR 0x0A]) @ ''{{ read_csv(a.csv) }}'' @ ([CHR 0x0A] @ ''middle'' @ [CHR 0x0A])
          @ ''{{ read_csv(a.csv) }}'' @ ([CHR 0x0A] @ ''end''))
     = Inr ((''Intro'' @ [CHR 0x0A]) @ (''| a |'' @ [CHR 0x0A] @ ''| 1 |'')
          @ ([CHR 0x0A] @ ''middle'' @ [CHR 0x0A]) @ ''{{ read_csv(a.csv) }}'' @ ([CHR 0x0A] @ ''end''))
   \<and> sub ''read_csv'' (''| b |'' @ [CHR 0x0A] @ ''| 2 |'')
       ((''Intro'' @ [CHR 0x0A]) @ (''| a |'' @ [CHR 0x0A] @ ''| 1 |'')
          @ ([CHR 0x0A] @ ''middle'' @ [CHR 0x0A]) @ ''{{ read_csv(a.csv) }}'' @ ([CHR 0x0A] @ ''end''))
     = Inr ((''Intro'' @ [CHR 0x0A]) @ (''| a |'' @ [CHR 0x0A] @ ''| 1 |'')
          @ ([CHR 0x0A] @ ''middle'' @ [CHR 0x0A]) @ (''| b |'' @ [CHR 0x0A] @ ''| 2 |'')
          @ ([CHR 0x0A] @ ''end''))"
proof -
  let ?p = "tag_pattern ''read_csv''"
  let ?pre = "''Intro'' @ [CHR 0x0A]"
  let ?T = "''{{ read_csv(a.csv) }}''"
  let ?mid = "[CHR 0x0A] @ ''middle'' @ [CHR 0x0A]"
  let ?post = "[CHR 0x0A] @ ''end''"
  let ?F1 = "''| a |'' @ [CHR 0x0A] @ ''| 1 |''"
  let ?F2 = "''| b |'' @ [CHR 0x0A] @ ''| 2 |''"
  let ?r = "[[], ''{'', ''{'', '' '', ''r'', ''e'', ''a'', ''d'', ''_'', ''c'', ''s'', ''v'',
             ''('', ''a.csv'', '')'', '' '', ''}'', ''}'']"
  have h1: "search ?p (?pre @ ?T @ ?mid @ ?T @ ?post) = Some (length ?pre, ?r)"
    by code_simp
  have h2: "concat ?r = ?T"
    by code_simp
  have h3: "search ?p (?mid @ ?T @ ?post) = Some (length ?mid, ?r)"
    by code_simp
  have h4: "CHR 0x5C \<notin> set ?F1"
    by code_simp
  have h5: "CHR 0x5C \<notin> set ?F2"
    by code_simp
  have "search ?p (?pre @ ?F1 @ ?mid @ ?T @ ?post) = Some (length (?pre @ ?F1 @ ?mid), ?r)"
    by code_simp
  from search_sound [OF this]
  have h6: "\<forall>j < length (?pre @ ?F1 @ ?mid). rmatch ?p (drop j (?pre @ ?F1 @ ?mid @ ?T @ ?post)) = None"
    by blast
  from C3_two_identical_tags [OF refl h1 h2 h3 h2 h4 h5 h6]
  show ?thesis by blast
qed

text \<open>
  C3 as stated fails when the first fragment, put in its place, forms a tag together with
  the text that follows it. The source below holds the tag \<open>{{ read_csv(a) }}\<close> twice and
  nothing else that matches; neither fragment holds a match. After the first replacement
  the fragment \<open>{{ read_csv(zzz)\<close> and the following line \<open> }}\<close> match the pattern, so the
  second application replaces them, the first fragment included, and leaves the second
  occurrence in the text.
\<close>

theorem C3_fragment_joins_surroundings_counterexample:
  "map concat (findall (tag_pattern ''read_csv'')
       (''{{ read_csv(a) }}'' @ [CHR 0x0A] @ '' }}'' @ [CHR 0x0A] @ ''{{ read_csv(a) }}''))
     = [''{{ read_csv(a) }}'', ''{{ read_csv(a) }}'']
   \<and> search (tag_pattern ''read_csv'') ''{{ read_csv(zzz)'' = None
   \<and> search (tag_pattern ''read_csv'') ''| b |'' = None
   \<and> sub ''read_csv'' ''{{ read_csv(zzz)''
       (''{{ read_csv(a) }}'' @ [CHR 0x0A] @ '' }}'' @ [CHR 0x0A] @ ''{{ read_csv(a) }}'')
     = Inr (''{{ read_csv(zzz)'' @ [CHR 0x0A] @ '' }}'' @ [CHR 0x0A] @ ''{{ read_csv(a) }}'')
   \<and> sub ''read_csv'' ''| b |''
       (''{{ read_csv(zzz)'' @ [CHR 0x0A] @ '' }}'' @ [CHR 0x0A] @ ''{{ read_csv(a) }}'')
     = Inr (''| b |'' @ [CHR 0x0A] @ ''{{ read_csv(a) }}'')"
  by code_simp

end
